theory Spec2Isabelle
  imports Main "HOL-Library.List_Lexorder" "HOL-Library.Char_ord"
begin

section \<open>Paths and command lines\<close>

text \<open>
  Strings are byte lists, as \<^verbatim>\<open>std::string\<close> is. The three library functions used by
  \<^verbatim>\<open>cppparser.cpp\<close> on paths are embedded for POSIX paths:

  \<^item> \<^verbatim>\<open>::tolower\<close> in the "C" locale maps \<^verbatim>\<open>A..Z\<close> to \<^verbatim>\<open>a..z\<close> and leaves every other byte;
  \<^item> \<^verbatim>\<open>boost::filesystem::extension(p)\<close> is the part of the last path component from its
    rightmost dot on (the dot included), empty when the component has no dot or is
    \<^verbatim>\<open>.\<close> or \<^verbatim>\<open>..\<close>;
  \<^item> \<^verbatim>\<open>boost::filesystem::absolute(p, base)\<close> is \<^verbatim>\<open>p\<close> when \<^verbatim>\<open>p\<close> starts at the root and
    \<^verbatim>\<open>base / p\<close> otherwise (\<^verbatim>\<open>base\<close> is the working directory of a compile command, an
    absolute path).
\<close>

definition tolower :: "char \<Rightarrow> char" where
  "tolower c =
     (case map_of (zip ''ABCDEFGHIJKLMNOPQRSTUVWXYZ'' ''abcdefghijklmnopqrstuvwxyz'') c of
        Some l \<Rightarrow> l
      | None \<Rightarrow> c)"

definition filename :: "string \<Rightarrow> string" where
  "filename p = rev (takeWhile (\<lambda>c. c \<noteq> CHR ''/'') (rev p))"

definition extension :: "string \<Rightarrow> string" where
  "extension p =
     (let f = filename p in
      if f = ''.'' \<or> f = ''..'' \<or> CHR ''.'' \<notin> set f then []
      else CHR ''.'' # rev (takeWhile (\<lambda>c. c \<noteq> CHR ''.'') (rev f)))"

definition absolute :: "string \<Rightarrow> string \<Rightarrow> string" where
  "absolute p base =
     (if p = [] then base
      else if hd p = CHR ''/'' then p
      else if base = [] \<or> last base = CHR ''/'' then base @ p
      else base @ ''/'' @ p)"

text \<open>
  \<^verbatim>\<open>s.substr(0, n)\<close> with \<^verbatim>\<open>n\<close> computed in \<^verbatim>\<open>std::size_t\<close> (64 bits): a difference below
  zero wraps around to a count beyond the string's end, and \<^verbatim>\<open>substr\<close> then returns the
  whole string.
\<close>

definition size_t_sub :: "nat \<Rightarrow> nat \<Rightarrow> nat" where
  "size_t_sub a b = nat ((int a - int b) mod 2 ^ 64)"

definition substr0 :: "string \<Rightarrow> nat \<Rightarrow> string" where
  "substr0 s n = take n s"

record CompileCommand =
  Directory :: string
  Filename :: string
  CommandLine :: "string list"

subsection \<open>isSourceFile, isNonSourceFlag\<close>

definition cppExts :: "string list" where
  "cppExts = [''.c'', ''.cc'', ''.cpp'', ''.cxx'', ''.o'', ''.so'', ''.a'']"

definition isSourceFile :: "string \<Rightarrow> bool" where
  "isSourceFile f = (map tolower (extension f) \<in> set cppExts)"

definition isNonSourceFlag :: "string \<Rightarrow> bool" where
  "isNonSourceFlag arg = (take 4 arg = ''-Wl,'')"

subsection \<open>extractInputOutputs\<close>

text \<open>
  The local variables of \<^verbatim>\<open>extractInputOutputs\<close> form the scanner's state. \<^verbatim>\<open>sources\<close> is a
  \<^verbatim>\<open>std::unordered_set\<close>, a set; the result is a \<^verbatim>\<open>std::map\<close>, a finite map whose keys are
  the sources.
\<close>

datatype State = NoneState | OParam

record Scan =
  hasCParam :: bool
  sources :: "string set"
  output' :: string
  state :: State

definition scanInit :: Scan where
  "scanInit = \<lparr>hasCParam = False, sources = {}, output' = [], state = NoneState\<rparr>"

definition scanArg :: "string \<Rightarrow> Scan \<Rightarrow> string \<Rightarrow> Scan" where
  "scanArg dir s arg =
     (if state s = OParam then s\<lparr>output' := absolute arg dir, state := NoneState\<rparr>
      else if isSourceFile arg \<and> \<not> isNonSourceFlag arg
        then s\<lparr>sources := insert (absolute arg dir) (sources s)\<rparr>
      else if arg = ''-c'' then s\<lparr>hasCParam := True\<rparr>
      else if arg = ''-o'' then s\<lparr>state := OParam\<rparr>
      else s)"

definition scanArgs :: "string \<Rightarrow> string list \<Rightarrow> Scan" where
  "scanArgs dir args = foldl (scanArg dir) scanInit args"

definition objectOf :: "string \<Rightarrow> string" where
  "objectOf src =
     substr0 src (size_t_sub (size_t_sub (length src) (length (extension src))) 1) @ ''.o''"

definition extractInputOutputs :: "CompileCommand \<Rightarrow> (string \<rightharpoonup> string)" where
  "extractInputOutputs command =
     (let s = scanArgs (Directory command) (CommandLine command) in
      if output' s = [] \<and> hasCParam s
      then (\<lambda>src. if src \<in> sources s then Some (objectOf src) else None)
      else
        (let out = (if output' s = [] then Directory command @ ''/a.out'' else output' s)
         in (\<lambda>src. if src \<in> sources s then Some out else None)))"

section \<open>The store\<close>

text \<open>
  The persistent store is a set of tables, one per persisted class, each a list of rows in
  the order a query returns them. Object pointers between rows (\<^verbatim>\<open>odb::lazy_shared_ptr\<close>,
  \<^verbatim>\<open>std::shared_ptr\<close>) are the ids they hold in the database.

  Modelled from the spec: the persisted classes are declared in \<^verbatim>\<open>model/*.h\<close>, which is not
  among the sources. Their fields are the ones \<^verbatim>\<open>cppparser.cpp\<close> reads and writes; the value
  sets of \<^verbatim>\<open>File::type\<close> and \<^verbatim>\<open>File::parseStatus\<close> are the spec's
  (\<^verbatim>\<open>Directory, Binary, Other\<close> and \<^verbatim>\<open>NotParsed, PartiallyParsed, FullyParsed\<close>).
\<close>

datatype FileType = DIRECTORY_TYPE | BINARY_TYPE | OTHER_TYPE

datatype ParseStatus = PSNone | PSPartiallyParsed | PSFullyParsed

record File =
  file_id :: nat
  file_path :: string
  file_type :: FileType
  file_parseStatus :: ParseStatus
  file_contentHash :: "string option"

record CppHeaderInclusion =
  inc_includer :: nat
  inc_included :: nat

datatype AstType = Definition | Declaration | Usage | OtherAstType

record CppAstNode =
  ast_id :: nat
  ast_file :: nat
  ast_astType :: AstType
  ast_mangledNameHash :: nat

record CppEntity =
  entity_id :: nat
  entity_mangledNameHash :: nat

record CppInheritance =
  inheritance_id :: nat
  inheritance_derived :: nat
  inheritance_base :: nat

record CppFriendship =
  friendship_id :: nat
  friendship_target :: nat
  friendship_theFriend :: nat

datatype Domain = FILE | CPPASTNODE | OtherDomain

record CppNode =
  node_id :: nat
  node_domain :: Domain
  node_domainId :: string

record CppEdge =
  edge_id :: nat
  edge_from :: nat
  edge_to :: nat

datatype BuildActionType = Compile | Link

record BuildAction =
  action_id :: nat
  action_command :: string
  action_type :: BuildActionType

record BuildSource =
  source_file :: nat
  source_action :: nat

record BuildTarget =
  target_file :: nat
  target_action :: nat

record Db =
  Files :: "File list"
  CppHeaderInclusions :: "CppHeaderInclusion list"
  CppAstNodes :: "CppAstNode list"
  CppEntities :: "CppEntity list"
  CppInheritances :: "CppInheritance list"
  CppFriendships :: "CppFriendship list"
  CppNodes :: "CppNode list"
  CppEdges :: "CppEdge list"
  BuildActions :: "BuildAction list"
  BuildSources :: "BuildSource list"
  BuildTargets :: "BuildTarget list"

section \<open>collectNodeSet\<close>

text \<open>
  The two queries of one iteration of the \<^verbatim>\<open>while\<close> loop: the \<^verbatim>\<open>to\<close> ends of the edges whose
  \<^verbatim>\<open>from\<close> is the current node, then the \<^verbatim>\<open>from\<close> ends of the edges whose \<^verbatim>\<open>to\<close> is it.
\<close>

definition fromTargets :: "CppEdge list \<Rightarrow> nat \<Rightarrow> nat list" where
  "fromTargets es nodeId = map edge_to (filter (\<lambda>e. edge_from e = nodeId) es)"

definition toTargets :: "CppEdge list \<Rightarrow> nat \<Rightarrow> nat list" where
  "toTargets es nodeId = map edge_from (filter (\<lambda>e. edge_to e = nodeId) es)"

text \<open>
  One \<^verbatim>\<open>for\<close> loop over a query result: an end that is not in \<^verbatim>\<open>nodes\<close> yet is inserted and
  pushed on \<^verbatim>\<open>processQueue\<close>. The state is the pair \<^verbatim>\<open>(nodes, processQueue)\<close>.
\<close>

fun enqueueNew :: "nat list \<Rightarrow> nat set \<times> nat list \<Rightarrow> nat set \<times> nat list" where
  "enqueueNew [] s = s"
| "enqueueNew (t # ts) (nodes, q) =
     (if t \<in> nodes then enqueueNew ts (nodes, q)
      else enqueueNew ts (insert t nodes, q @ [t]))"

definition expand :: "CppEdge list \<Rightarrow> nat \<Rightarrow> nat set \<times> nat list \<Rightarrow> nat set \<times> nat list" where
  "expand es nodeId s = enqueueNew (toTargets es nodeId) (enqueueNew (fromTargets es nodeId) s)"

definition neighbours :: "CppEdge list \<Rightarrow> nat \<Rightarrow> nat set" where
  "neighbours es x = set (fromTargets es x) \<union> set (toTargets es x)"

definition endpoints :: "CppEdge list \<Rightarrow> nat set" where
  "endpoints es = edge_from ` set es \<union> edge_to ` set es"

lemma enqueueNew_eq:
  "\<exists>new. enqueueNew ts (nodes, q) = (nodes \<union> set ts, q @ new) \<and>
         set new = set ts - nodes \<and> distinct new"
proof (induction ts arbitrary: nodes q)
  case Nil
  show ?case by simp
next
  case (Cons t ts)
  show ?case
  proof (cases "t \<in> nodes")
    case True
    from Cons.IH [of nodes q] obtain new where
      "enqueueNew ts (nodes, q) = (nodes \<union> set ts, q @ new)"
      "set new = set ts - nodes" "distinct new" by blast
    with True show ?thesis by (intro exI [of _ new]) auto
  next
    case False
    from Cons.IH [of "insert t nodes" "q @ [t]"] obtain new where
      "enqueueNew ts (insert t nodes, q @ [t]) = (insert t nodes \<union> set ts, (q @ [t]) @ new)"
      "set new = set ts - insert t nodes" "distinct new" by blast
    with False show ?thesis by (intro exI [of _ "t # new"]) auto
  qed
qed

lemma expand_eq:
  "\<exists>new. expand es x (nodes, q) = (nodes \<union> neighbours es x, q @ new) \<and>
         set new = neighbours es x - nodes \<and> distinct new"
proof -
  from enqueueNew_eq [of "fromTargets es x" nodes q] obtain n1 where
    1: "enqueueNew (fromTargets es x) (nodes, q) = (nodes \<union> set (fromTargets es x), q @ n1)"
    "set n1 = set (fromTargets es x) - nodes" "distinct n1" by blast
  from enqueueNew_eq [of "toTargets es x" "nodes \<union> set (fromTargets es x)" "q @ n1"]
  obtain n2 where
    2: "enqueueNew (toTargets es x) (nodes \<union> set (fromTargets es x), q @ n1)
        = (nodes \<union> set (fromTargets es x) \<union> set (toTargets es x), (q @ n1) @ n2)"
    "set n2 = set (toTargets es x) - (nodes \<union> set (fromTargets es x))" "distinct n2" by blast
  show ?thesis
    using 1 2 by (intro exI [of _ "n1 @ n2"]) (auto simp: expand_def neighbours_def)
qed

lemma neighbours_endpoints: "neighbours es x \<subseteq> endpoints es"
  by (auto simp: neighbours_def endpoints_def fromTargets_def toTargets_def)

definition bfsOrder :: "((CppEdge list \<times> nat set \<times> nat list) \<times> (CppEdge list \<times> nat set \<times> nat list)) set" where
  "bfsOrder = inv_image (less_than <*lex*> less_than)
     (\<lambda>(es, nodes, q). (card (endpoints es - nodes), length q))"

lemma wf_bfsOrder: "wf bfsOrder"
  unfolding bfsOrder_def by (intro wf_inv_image wf_lex_prod wf_less_than)

lemma expand_decreases:
  assumes e: "expand es nodeId (nodes, q) = (nodes', q')"
  shows "((es, nodes', q'), (es, nodes, nodeId # q)) \<in> bfsOrder"
proof -
  from expand_eq [of es nodeId nodes q] e obtain new where
    n: "nodes' = nodes \<union> neighbours es nodeId" "q' = q @ new"
       "set new = neighbours es nodeId - nodes" by auto
  have fin: "finite (endpoints es)" by (simp add: endpoints_def)
  show ?thesis
  proof (cases "new = []")
    case True
    with n have "nodes' = nodes" "q' = q" by auto
    then show ?thesis by (simp add: bfsOrder_def)
  next
    case False
    then obtain y where y: "y \<in> neighbours es nodeId" "y \<notin> nodes"
      using n(3) by (cases new) auto
    with neighbours_endpoints [of es nodeId]
    have "y \<in> endpoints es - nodes" "y \<notin> endpoints es - nodes'"
      using n(1) by auto
    moreover have "endpoints es - nodes' \<subseteq> endpoints es - nodes" using n(1) by auto
    ultimately have "endpoints es - nodes' \<subset> endpoints es - nodes" by blast
    then have "card (endpoints es - nodes') < card (endpoints es - nodes)"
      using fin by (intro psubset_card_mono) auto
    then show ?thesis by (simp add: bfsOrder_def)
  qed
qed

lemma expand_decreases_pair:
  "((es, expand es nodeId (nodes, q)), (es, nodes, nodeId # q)) \<in> bfsOrder"
  by (cases "expand es nodeId (nodes, q)") (simp add: expand_decreases)

text \<open>
  The \<^verbatim>\<open>while (!processQueue.empty())\<close> loop. It ends on every edge table: an iteration
  either inserts an edge end that was not in \<^verbatim>\<open>nodes\<close>, or only shortens the queue.
\<close>

function processQueueLoop :: "CppEdge list \<Rightarrow> nat set \<Rightarrow> nat list \<Rightarrow> nat set" where
  "processQueueLoop es nodes [] = nodes"
| "processQueueLoop es nodes (nodeId # q) =
     (case expand es nodeId (nodes, q) of (nodes', q') \<Rightarrow> processQueueLoop es nodes' q')"
  by pat_completeness auto
termination
  by (relation bfsOrder) (simp_all add: wf_bfsOrder expand_decreases_pair)

text \<open>The values \<^verbatim>\<open>nodeId\<close> takes, one per iteration of the loop, in order.\<close>

function visitOrder :: "CppEdge list \<Rightarrow> nat set \<Rightarrow> nat list \<Rightarrow> nat list" where
  "visitOrder es nodes [] = []"
| "visitOrder es nodes (nodeId # q) =
     (case expand es nodeId (nodes, q) of (nodes', q') \<Rightarrow> nodeId # visitOrder es nodes' q')"
  by pat_completeness auto
termination
  by (relation bfsOrder) (simp_all add: wf_bfsOrder expand_decreases_pair)

definition collectNodeSet :: "Db \<Rightarrow> nat \<Rightarrow> nat set" where
  "collectNodeSet db node = processQueueLoop (CppEdges db) {node} [node]"

definition collectNodeSet_visits :: "Db \<Rightarrow> nat \<Rightarrow> nat list" where
  "collectNodeSet_visits db node = visitOrder (CppEdges db) {node} [node]"

text \<open>
  The edges of the store read in both directions, and the nodes connected to a node by a
  path of such edges.
\<close>

definition undirected :: "Db \<Rightarrow> (nat \<times> nat) set" where
  "undirected db =
     {(a, b). \<exists>e \<in> set (CppEdges db).
        (edge_from e = a \<and> edge_to e = b) \<or> (edge_to e = a \<and> edge_from e = b)}"

definition component :: "Db \<Rightarrow> nat \<Rightarrow> nat set" where
  "component db n = {m. (n, m) \<in> (undirected db)\<^sup>*}"

section \<open>The invalidation pass: classification\<close>

text \<open>
  \<^verbatim>\<open>_fileStatus\<close> maps a path to its classification. Its declaration (in \<^verbatim>\<open>cppparser.h\<close>) is
  not among the sources; it is embedded as an association list in insertion order, with
  the two operations the code uses: \<^verbatim>\<open>count\<close>, and \<^verbatim>\<open>insert\<close>, which leaves an entry that is
  already there as it is.
\<close>

datatype IncrementalStatus = ADDED | MODIFIED | DELETED

type_synonym FileStatus = "(string \<times> IncrementalStatus) list"

definition fileStatus_count :: "FileStatus \<Rightarrow> string \<Rightarrow> nat" where
  "fileStatus_count st p = (if p \<in> fst ` set st then 1 else 0)"

definition fileStatus_insert :: "FileStatus \<Rightarrow> string \<times> IncrementalStatus \<Rightarrow> FileStatus" where
  "fileStatus_insert st item = (if fst item \<in> fst ` set st then st else st @ [item])"

text \<open>
  What can go wrong. In the store: \<^verbatim>\<open>load()\<close> of a pointer whose object is not in the
  database (\<^verbatim>\<open>ObjectNotPersistent\<close>), \<^verbatim>\<open>one()\<close> on a query with several rows
  (\<^verbatim>\<open>ResultNotUnique\<close>), dereferencing the null result of \<^verbatim>\<open>one()\<close> (\<^verbatim>\<open>NullPointer\<close>), a
  violated foreign key (\<^verbatim>\<open>ForeignKeyViolation\<close>), any other failure of a collaborator
  (\<^verbatim>\<open>StoreError\<close>). In the parser: an iterator moved past the end of an empty vector
  (\<^verbatim>\<open>OutOfRange\<close>). Each one ends the running call; in a transaction, nothing is committed.
\<close>

datatype error =
  ObjectNotPersistent | ResultNotUnique | NullPointer | ForeignKeyViolation | StoreError | OutOfRange

definition loadFile :: "Db \<Rightarrow> nat \<Rightarrow> File option" where
  "loadFile db i = find (\<lambda>f. file_id f = i) (Files db)"

definition includedBy :: "Db \<Rightarrow> File \<Rightarrow> CppHeaderInclusion list" where
  "includedBy db f = filter (\<lambda>inc. inc_included inc = file_id f) (CppHeaderInclusions db)"

text \<open>
  \<^verbatim>\<open>markAsModified\<close>, with its \<^verbatim>\<open>for\<close> loop over the inclusions of the file as the second
  function of a mutual recursion: the loop passes the map on from one recursive call to
  the next.
\<close>

function markAsModified :: "Db \<Rightarrow> File \<Rightarrow> FileStatus \<Rightarrow> error + FileStatus"
  and markIncluders :: "Db \<Rightarrow> CppHeaderInclusion list \<Rightarrow> FileStatus \<Rightarrow> error + FileStatus" where
  "markAsModified db f st =
     (if fileStatus_count st (file_path f) = 0
      then markIncluders db (includedBy db f) (fileStatus_insert st (file_path f, MODIFIED))
      else Inr st)"
| "markIncluders db [] st = Inr st"
| "markIncluders db (inc # incs) st =
     (case loadFile db (inc_includer inc) of
        None \<Rightarrow> Inl ObjectNotPersistent
      | Some g \<Rightarrow>
          (case markAsModified db g st of
             Inl e \<Rightarrow> Inl e
           | Inr st' \<Rightarrow> markIncluders db incs st'))"
  by pat_completeness auto


text \<open>
  The recursion ends on every store: a call that does not return at once classifies a path
  that was not classified, and the paths it can classify are those of the files of the
  store and of the file it was called with.
\<close>

definition paths :: "Db \<Rightarrow> string set" where
  "paths db = file_path ` set (Files db)"

definition keys :: "FileStatus \<Rightarrow> string set" where
  "keys st = fst ` set st"

definition markOrder ::
  "((Db \<times> File \<times> FileStatus + Db \<times> CppHeaderInclusion list \<times> FileStatus) \<times>
    (Db \<times> File \<times> FileStatus + Db \<times> CppHeaderInclusion list \<times> FileStatus)) set" where
  "markOrder = inv_image (less_than <*lex*> less_than)
     (\<lambda>x. case x of
        Inl (db, f, st) \<Rightarrow> (card (insert (file_path f) (paths db) - keys st), 0)
      | Inr (db, incs, st) \<Rightarrow> (card (paths db - keys st), Suc (length incs)))"

lemma wf_markOrder: "wf markOrder"
  unfolding markOrder_def by (intro wf_inv_image wf_lex_prod wf_less_than)

lemma keys_insert:
  "keys (fileStatus_insert st (p, s)) = insert p (keys st)"
  by (auto simp: fileStatus_insert_def keys_def)

lemma count_0_iff: "fileStatus_count st p = 0 \<longleftrightarrow> p \<notin> keys st"
  by (simp add: fileStatus_count_def keys_def)

lemma loadFile_Some: "loadFile db i = Some f \<Longrightarrow> f \<in> set (Files db) \<and> file_id f = i"
  by (auto simp: loadFile_def find_Some_iff)

lemma mark_dom_keys:
  "markAsModified_markIncluders_dom (Inl (db, f, st)) \<Longrightarrow>
     (\<forall>st'. markAsModified db f st = Inr st' \<longrightarrow> keys st \<subseteq> keys st')"
  "markAsModified_markIncluders_dom (Inr (db, incs, st)) \<Longrightarrow>
     (\<forall>st'. markIncluders db incs st = Inr st' \<longrightarrow> keys st \<subseteq> keys st')"
proof (induction rule: markAsModified_markIncluders.pinduct)
  case (1 db f st)
  then show ?case
    by (auto simp: markAsModified.psimps keys_insert split: if_splits)
next
  case (2 db st)
  then show ?case by (simp add: markIncluders.psimps)
next
  case (3 db inc incs st)
  show ?case
  proof (intro allI impI)
    fix st'
    assume r: "markIncluders db (inc # incs) st = Inr st'"
    from r "3.hyps" obtain g b where
      g: "loadFile db (inc_includer inc) = Some g" and
      b: "markAsModified db g st = Inr b" and
      c: "markIncluders db incs b = Inr st'"
      by (auto simp: markIncluders.psimps split: option.splits sum.splits)
    from "3.IH"(1) [OF g] b have "keys st \<subseteq> keys b" by blast
    moreover from "3.IH"(2) [OF g b] c have "keys b \<subseteq> keys st'" by blast
    ultimately show "keys st \<subseteq> keys st'" by blast
  qed
qed

termination markAsModified
proof (relation markOrder, goal_cases)
  case 1
  show ?case by (rule wf_markOrder)
next
  case (2 db f st)
  then have nk: "file_path f \<notin> keys st" by (simp add: count_0_iff)
  have "paths db - insert (file_path f) (keys st) \<subset> insert (file_path f) (paths db) - keys st"
    using nk by auto
  moreover have "finite (insert (file_path f) (paths db) - keys st)"
    by (simp add: paths_def)
  ultimately have "card (paths db - insert (file_path f) (keys st))
      < card (insert (file_path f) (paths db) - keys st)"
    by (rule psubset_card_mono [rotated])
  then show ?case by (simp add: markOrder_def keys_insert)
next
  case (3 db inc incs st g)
  then have "file_path g \<in> paths db" by (auto simp: paths_def dest: loadFile_Some)
  then show ?case by (simp add: markOrder_def insert_absorb)
next
  case (4 db inc incs st g b)
  from mark_dom_keys(1) [OF 4(3)] 4(2) have "keys st \<subseteq> keys b" by blast
  then have "card (paths db - keys b) \<le> card (paths db - keys st)"
    by (intro card_mono) (auto simp: paths_def)
  then show ?case by (auto simp: markOrder_def)
qed


text \<open>
  The world outside the store: the content of each path that exists on disk, and the
  content hash (\<^verbatim>\<open>util::sha1Hash\<close>).
\<close>

record Env =
  disk :: "string \<Rightarrow> string option"
  sha1Hash :: "string \<Rightarrow> string"

text \<open>
  The first loop of \<^verbatim>\<open>incrementalParse\<close>: the query, the body of the loop for one file, and
  the loop.
\<close>

definition queryFiles :: "Db \<Rightarrow> File list" where
  "queryFiles db =
     filter (\<lambda>f. file_type f \<noteq> DIRECTORY_TYPE \<and> file_type f \<noteq> BINARY_TYPE) (Files db)"

definition classifyFile :: "Env \<Rightarrow> Db \<Rightarrow> File \<Rightarrow> FileStatus \<Rightarrow> error + FileStatus" where
  "classifyFile env db file st =
     (case disk env (file_path file) of
        Some fileContent \<Rightarrow>
          if fileStatus_count st (file_path file) = 0
          then (case file_contentHash file of
                  None \<Rightarrow> Inr st
                | Some hash \<Rightarrow>
                    if hash \<noteq> sha1Hash env fileContent then markAsModified db file st
                    else Inr st)
          else Inr st
      | None \<Rightarrow> Inr (fileStatus_insert st (file_path file, DELETED)))"

fun classifyFiles :: "Env \<Rightarrow> Db \<Rightarrow> File list \<Rightarrow> FileStatus \<Rightarrow> error + FileStatus" where
  "classifyFiles env db [] st = Inr st"
| "classifyFiles env db (file # files) st =
     (case classifyFile env db file st of
        Inl e \<Rightarrow> Inl e
      | Inr st' \<Rightarrow> classifyFiles env db files st')"

text \<open>
  \<^verbatim>\<open>(g, m)\<close> is in \<^verbatim>\<open>includesFile db\<close> when a HeaderInclusion row says that file \<^verbatim>\<open>g\<close>
  includes file \<^verbatim>\<open>m\<close>; \<^verbatim>\<open>includesOnDisk\<close> keeps the pairs whose including file exists on
  disk. A store is well formed when ids and paths identify File rows and every includer of
  an inclusion row is a File row. A file has changed on disk when it is there and the hash
  of its content is not the stored one.
\<close>

definition includesFile :: "Db \<Rightarrow> (File \<times> File) set" where
  "includesFile db =
     {(g, m). g \<in> set (Files db) \<and> m \<in> set (Files db) \<and>
        (\<exists>inc \<in> set (CppHeaderInclusions db).
           inc_includer inc = file_id g \<and> inc_included inc = file_id m)}"

definition includesOnDisk :: "Env \<Rightarrow> Db \<Rightarrow> (File \<times> File) set" where
  "includesOnDisk env db = {(g, m). (g, m) \<in> includesFile db \<and> disk env (file_path g) \<noteq> None}"

definition wellFormed :: "Db \<Rightarrow> bool" where
  "wellFormed db \<longleftrightarrow>
     distinct (map file_id (Files db)) \<and> distinct (map file_path (Files db)) \<and>
     list_all (\<lambda>inc. inc_includer inc \<in> file_id ` set (Files db)) (CppHeaderInclusions db)"

definition changedOnDisk :: "Env \<Rightarrow> File \<Rightarrow> bool" where
  "changedOnDisk env f \<longleftrightarrow>
     (case (file_contentHash f, disk env (file_path f)) of
        (Some hash, Some fileContent) \<Rightarrow> hash \<noteq> sha1Hash env fileContent
      | _ \<Rightarrow> False)"

text \<open>
  What one call of \<^verbatim>\<open>markAsModified\<close> does to the map: entries are only added, each new
  one is \<^verbatim>\<open>MODIFIED\<close>, and every file that includes a newly classified file is classified
  when the call returns. The invariant of the loop: a path that exists on disk is never
  \<^verbatim>\<open>DELETED\<close>, and every file that includes a \<^verbatim>\<open>MODIFIED\<close> file is classified.
\<close>

definition good :: "Db \<Rightarrow> FileStatus \<Rightarrow> FileStatus \<Rightarrow> bool" where
  "good db st st' \<longleftrightarrow>
     map_of st \<subseteq>\<^sub>m map_of st' \<and>
     (\<forall>p \<in> keys st' - keys st. map_of st' p = Some MODIFIED) \<and>
     (\<forall>(g, m) \<in> includesFile db. file_path m \<in> keys st' - keys st \<longrightarrow> file_path g \<in> keys st')"

definition classInv :: "Env \<Rightarrow> Db \<Rightarrow> FileStatus \<Rightarrow> bool" where
  "classInv env db st \<longleftrightarrow>
     (\<forall>p s. map_of st p = Some s \<longrightarrow> disk env p \<noteq> None \<longrightarrow> s = MODIFIED) \<and>
     (\<forall>(g, m) \<in> includesFile db.
        map_of st (file_path m) = Some MODIFIED \<longrightarrow> file_path g \<in> keys st)"

section \<open>The invalidation pass: cleanup\<close>

text \<open>
  Sequencing of steps that can throw: the first error ends the sequence.
\<close>

definition bindE :: "error + 'a \<Rightarrow> ('a \<Rightarrow> error + 'b) \<Rightarrow> error + 'b" where
  "bindE m k = (case m of Inl e \<Rightarrow> Inl e | Inr x \<Rightarrow> k x)"

text \<open>
  \<^verbatim>\<open>query(...).one()\<close>: the row when the query has one, a null pointer when it has none, an
  exception when it has several. \<^verbatim>\<open>std::to_string\<close> of an id is its decimal numeral.
\<close>

definition one :: "'a list \<Rightarrow> error + 'a option" where
  "one rows = (case rows of [] \<Rightarrow> Inr None | [x] \<Rightarrow> Inr (Some x) | _ \<Rightarrow> Inl ResultNotUnique)"

fun to_string :: "nat \<Rightarrow> string" where
  "to_string n =
     (if n < 10 then [''0123456789'' ! n]
      else to_string (n div 10) @ [''0123456789'' ! (n mod 10)])"

declare to_string.simps [simp del]

text \<open>
  Modelled from the spec: the store keeps referential constraints ("deletion order within a
  file matters only to satisfy referential constraints"), so an edge row cannot reference
  a node row that is not there. The foreign keys \<^verbatim>\<open>CppEdge::from\<close> and \<^verbatim>\<open>CppEdge::to\<close> are
  declared with the class, in \<^verbatim>\<open>model/cppedge.h\<close>, which is not among the sources; what they
  do when the \<^verbatim>\<open>CppNode\<close> they reference is erased is a parameter: \<^verbatim>\<open>Cascade\<close> erases the
  referencing edges with the node, \<^verbatim>\<open>NoAction\<close> refuses to erase a node that an edge
  references. \<^verbatim>\<open>SourceManager::removeFile\<close>, which may fail, is the second parameter.
\<close>

datatype OnDelete = Cascade | NoAction

record Backend =
  edgeOnDelete :: OnDelete
  removeFile :: "File \<Rightarrow> Db \<Rightarrow> error + Db"

text \<open>
  \<^verbatim>\<open>erase<T>(id)\<close> removes the row of that id from the table of \<^verbatim>\<open>T\<close>; a table without such a
  row stays as it is.

  Modelled from the spec: erasing a BuildAction erases the BuildSource and BuildTarget rows
  it owns ("cascade-deleted with it"); the classes are declared in
  \<^verbatim>\<open>model/buildaction.h\<close> and \<^verbatim>\<open>model/buildsourcetarget.h\<close>, not among the sources.
\<close>

definition eraseCppEntity :: "nat \<Rightarrow> Db \<Rightarrow> Db" where
  "eraseCppEntity i db = db\<lparr>CppEntities := filter (\<lambda>x. entity_id x \<noteq> i) (CppEntities db)\<rparr>"

definition eraseCppInheritance :: "nat \<Rightarrow> Db \<Rightarrow> Db" where
  "eraseCppInheritance i db =
     db\<lparr>CppInheritances := filter (\<lambda>x. inheritance_id x \<noteq> i) (CppInheritances db)\<rparr>"

definition eraseCppFriendship :: "nat \<Rightarrow> Db \<Rightarrow> Db" where
  "eraseCppFriendship i db =
     db\<lparr>CppFriendships := filter (\<lambda>x. friendship_id x \<noteq> i) (CppFriendships db)\<rparr>"

definition eraseBuildAction :: "nat \<Rightarrow> Db \<Rightarrow> Db" where
  "eraseBuildAction i db =
     db\<lparr>BuildActions := filter (\<lambda>a. action_id a \<noteq> i) (BuildActions db),
        BuildSources := filter (\<lambda>s. source_action s \<noteq> i) (BuildSources db),
        BuildTargets := filter (\<lambda>t. target_action t \<noteq> i) (BuildTargets db)\<rparr>"

definition eraseCppNode :: "OnDelete \<Rightarrow> nat \<Rightarrow> Db \<Rightarrow> error + Db" where
  "eraseCppNode onDelete nodeId db =
     (case onDelete of
        Cascade \<Rightarrow>
          Inr (db\<lparr>CppNodes := filter (\<lambda>n. node_id n \<noteq> nodeId) (CppNodes db),
                  CppEdges := filter (\<lambda>e. edge_from e \<noteq> nodeId \<and> edge_to e \<noteq> nodeId)
                                (CppEdges db)\<rparr>)
      | NoAction \<Rightarrow>
          if \<exists>e \<in> set (CppEdges db). edge_from e = nodeId \<or> edge_to e = nodeId
          then Inl ForeignKeyViolation
          else Inr (db\<lparr>CppNodes := filter (\<lambda>n. node_id n \<noteq> nodeId) (CppNodes db)\<rparr>))"

text \<open>
  The loops \<^verbatim>\<open>for (nodeId : collectNodeSet(node.id)) erase<CppNode>(nodeId)\<close> (a \<^verbatim>\<open>std::set\<close> is
  iterated in ascending order) and \<^verbatim>\<open>for (node : delNodes)\<close> around it. The component of a
  node is collected in the store as it is when the loop reaches that node.
\<close>

fun eraseNodes :: "OnDelete \<Rightarrow> nat list \<Rightarrow> Db \<Rightarrow> error + Db" where
  "eraseNodes onDelete [] db = Inr db"
| "eraseNodes onDelete (nodeId # nodeIds) db =
     bindE (eraseCppNode onDelete nodeId db) (eraseNodes onDelete nodeIds)"

fun eraseComponents :: "OnDelete \<Rightarrow> CppNode list \<Rightarrow> Db \<Rightarrow> error + Db" where
  "eraseComponents onDelete [] db = Inr db"
| "eraseComponents onDelete (node # delNodes) db =
     bindE (eraseNodes onDelete (sorted_list_of_set (collectNodeSet db (node_id node))) db)
       (eraseComponents onDelete delNodes)"

text \<open>
  The body of the loop over the definitions of a file, the loop, and the cleanup of one
  classified path (the \<^verbatim>\<open>MODIFIED\<close>/\<^verbatim>\<open>DELETED\<close> case of the \<^verbatim>\<open>switch\<close>). A query is evaluated
  when it is issued.
\<close>

definition cleanupAstNode :: "OnDelete \<Rightarrow> CppAstNode \<Rightarrow> Db \<Rightarrow> error + Db" where
  "cleanupAstNode onDelete astNode db =
     (let db1 = fold (\<lambda>entity. eraseCppEntity (entity_id entity))
                  (filter (\<lambda>x. entity_mangledNameHash x = ast_mangledNameHash astNode)
                     (CppEntities db)) db;
          db2 = fold (\<lambda>inheritance. eraseCppInheritance (inheritance_id inheritance))
                  (filter (\<lambda>x. inheritance_derived x = ast_mangledNameHash astNode)
                     (CppInheritances db1)) db1;
          db3 = fold (\<lambda>friendship. eraseCppFriendship (friendship_id friendship))
                  (filter (\<lambda>x. friendship_target x = ast_mangledNameHash astNode)
                     (CppFriendships db2)) db2
      in eraseComponents onDelete
           (filter (\<lambda>n. node_domainId n = to_string (ast_id astNode) \<and> node_domain n = CPPASTNODE)
              (CppNodes db3)) db3)"

fun cleanupAstNodes :: "OnDelete \<Rightarrow> CppAstNode list \<Rightarrow> Db \<Rightarrow> error + Db" where
  "cleanupAstNodes onDelete [] db = Inr db"
| "cleanupAstNodes onDelete (astNode # astNodes) db =
     bindE (cleanupAstNode onDelete astNode db) (cleanupAstNodes onDelete astNodes)"

definition cleanupFile :: "Backend \<Rightarrow> string \<Rightarrow> Db \<Rightarrow> error + Db" where
  "cleanupFile backend path db =
     bindE (one (filter (\<lambda>f. file_path f = path) (Files db)))
       (\<lambda>found. case found of
          None \<Rightarrow> Inl NullPointer
        | Some delFile \<Rightarrow>
            bindE (cleanupAstNodes (edgeOnDelete backend)
                     (filter (\<lambda>n. ast_file n = file_id delFile \<and> ast_astType n = Definition)
                        (CppAstNodes db)) db)
              (\<lambda>db1.
                 let db2 = fold (\<lambda>source. eraseBuildAction (source_action source))
                             (filter (\<lambda>s. source_file s = file_id delFile) (BuildSources db1)) db1
                 in bindE (eraseComponents (edgeOnDelete backend)
                             (filter (\<lambda>n. node_domainId n = to_string (file_id delFile) \<and>
                                          node_domain n = FILE) (CppNodes db2)) db2)
                      (removeFile backend delFile)))"

fun cleanupItems :: "Backend \<Rightarrow> FileStatus \<Rightarrow> Db \<Rightarrow> error + Db" where
  "cleanupItems backend [] db = Inr db"
| "cleanupItems backend (item # items) db =
     (case snd item of
        ADDED \<Rightarrow> cleanupItems backend items db
      | _ \<Rightarrow> bindE (cleanupFile backend (fst item) db) (cleanupItems backend items))"

text \<open>
  Modelled from the spec: \<^verbatim>\<open>util::OdbTransaction\<close> (\<^verbatim>\<open>util/odbtransaction.h\<close>, not among the
  sources) runs a unit of work as one transaction of the store: what the unit wrote is
  committed when it returns, and nothing of it is kept when it throws.

  \<^verbatim>\<open>incrementalParse\<close> is one such unit: the classification loop followed by the cleanup
  loop. Its result is the exception or the new \<^verbatim>\<open>_fileStatus\<close>, and the store after the
  transaction.
\<close>

definition OdbTransaction :: "(Db \<Rightarrow> error + 'a \<times> Db) \<Rightarrow> Db \<Rightarrow> (error + 'a) \<times> Db" where
  "OdbTransaction body db =
     (case body db of Inl e \<Rightarrow> (Inl e, db) | Inr (r, db') \<Rightarrow> (Inr r, db'))"

definition incrementalParse :: "Backend \<Rightarrow> Env \<Rightarrow> FileStatus \<Rightarrow> Db \<Rightarrow> (error + FileStatus) \<times> Db" where
  "incrementalParse backend env st db =
     OdbTransaction
       (\<lambda>db. bindE (classifyFiles env db (queryFiles db) st)
                (\<lambda>st'. bindE (cleanupItems backend st' db) (\<lambda>db'. Inr (st', db'))))
       db"

text \<open>
  Modelled from the spec: \<^verbatim>\<open>SourceManager::removeFile\<close> (\<^verbatim>\<open>parser/sourcemanager.h\<close>, not
  among the sources) "removes the File record itself". This instance never fails.
\<close>

definition removeFileRow :: "File \<Rightarrow> Db \<Rightarrow> error + Db" where
  "removeFileRow f db = Inr (db\<lparr>Files := filter (\<lambda>g. file_id g \<noteq> file_id f) (Files db)\<rparr>)"

section \<open>Recording build actions\<close>

text \<open>\<^verbatim>\<open>boost::algorithm::join\<close>.\<close>

fun join :: "string list \<Rightarrow> string \<Rightarrow> string" where
  "join [] sep = []"
| "join [x] sep = x"
| "join (x # y # ys) sep = x @ sep @ join (y # ys) sep"

text \<open>
  The collaborators of the orchestrator, as parameters: \<^verbatim>\<open>util::fnvHash\<close> (a 64-bit hash);
  the id \<^verbatim>\<open>SourceManager\<close> gives a new File; \<^verbatim>\<open>boost::filesystem::is_regular_file\<close>;
  \<^verbatim>\<open>JSONCompilationDatabase::loadFromFile\<close> followed by \<^verbatim>\<open>getAllCompileCommands\<close> (the error
  message and the commands); whether \<^verbatim>\<open>FixedCompilationDatabase::loadFromCommandLine\<close>
  returns a database; and \<^verbatim>\<open>ClangTool::run\<close> with the visitor factory (its result and the
  store after the visitors wrote to it).

  The state of a \<^verbatim>\<open>CppParser\<close>: the store of its context, \<^verbatim>\<open>_fileStatus\<close>,
  \<^verbatim>\<open>_parsedCommandHashes\<close>, and the jobs handed to thread pools so far (\<^verbatim>\<open>pool->enqueue\<close>).
\<close>

record ParseJob =
  job_command :: CompileCommand
  job_index :: nat

record Tools =
  fnvHash :: "string \<Rightarrow> nat"
  newFileId :: "string \<Rightarrow> nat"
  is_regular_file :: "string \<Rightarrow> bool"
  loadFromFile :: "string \<Rightarrow> string \<times> CompileCommand list"
  loadFromCommandLine :: "string list \<Rightarrow> bool"
  toolRun :: "CompileCommand \<Rightarrow> Db \<Rightarrow> int \<times> Db"

record Options =
  incremental :: bool
  input :: "string list"
  jobs :: nat

record Parser =
  ctx_db :: Db
  fileStatus :: FileStatus
  parsedCommandHashes :: "nat set"
  dispatched :: "ParseJob list"

definition initBuildActions :: "Tools \<Rightarrow> Parser \<Rightarrow> Parser" where
  "initBuildActions tools ps =
     ps\<lparr>parsedCommandHashes :=
          fold (\<lambda>ba hashes. insert (fnvHash tools (action_command ba)) hashes)
            (BuildActions (ctx_db ps)) (parsedCommandHashes ps)\<rparr>"

text \<open>
  \<^verbatim>\<open>persist\<close> of a new BuildAction gives it an id that no BuildAction row has.
\<close>

definition newId :: "nat list \<Rightarrow> nat" where
  "newId ids = Suc (fold max ids 0)"

definition addBuildAction :: "CompileCommand \<Rightarrow> Db \<Rightarrow> BuildAction \<times> Db" where
  "addBuildAction command db =
     (let ext = extension (Filename command);
          buildAction =
            \<lparr>action_id = newId (map action_id (BuildActions db)),
             action_command = join (CommandLine command) '' '',
             action_type = (if ext = ''.o'' \<or> ext = ''.so'' \<or> ext = ''.a'' then Link else Compile)\<rparr>
      in (buildAction, db\<lparr>BuildActions := BuildActions db @ [buildAction]\<rparr>))"

text \<open>
  Modelled from the spec: \<^verbatim>\<open>SourceManager\<close> (not among the sources) keeps one File per path,
  "created on first reference"; \<^verbatim>\<open>updateFile\<close> stores the fields of the File of that path.
  \<^verbatim>\<open>persistFiles\<close> writes the Files to the store, where this embedding keeps them already.
\<close>

definition fileOf :: "Db \<Rightarrow> string \<Rightarrow> File option" where
  "fileOf db path = find (\<lambda>f. file_path f = path) (Files db)"

definition getFile :: "Tools \<Rightarrow> string \<Rightarrow> Db \<Rightarrow> File \<times> Db" where
  "getFile tools path db =
     (case fileOf db path of
        Some f \<Rightarrow> (f, db)
      | None \<Rightarrow>
          (let f = \<lparr>file_id = newFileId tools path, file_path = path, file_type = OTHER_TYPE,
                    file_parseStatus = PSNone, file_contentHash = None\<rparr>
           in (f, db\<lparr>Files := Files db @ [f]\<rparr>)))"

definition updateFile :: "File \<Rightarrow> Db \<Rightarrow> Db" where
  "updateFile f db =
     db\<lparr>Files := map (\<lambda>g. if file_path g = file_path f then f else g) (Files db)\<rparr>"

text \<open>The entries of a \<^verbatim>\<open>std::map\<close> in the order of iteration, by ascending key.\<close>

definition entries :: "(string \<rightharpoonup> string) \<Rightarrow> (string \<times> string) list" where
  "entries m = map (\<lambda>k. (k, the (m k))) (sorted_list_of_set (dom m))"

text \<open>
  \<^verbatim>\<open>addCompileCommand\<close>: the body of its loop for one entry of the map, then the loop and the
  transaction that persists the collected rows.
\<close>

definition addSourceTarget ::
  "Tools \<Rightarrow> BuildAction \<Rightarrow> bool \<Rightarrow> string \<times> string \<Rightarrow>
     BuildSource list \<times> BuildTarget list \<times> Db \<Rightarrow> BuildSource list \<times> BuildTarget list \<times> Db" where
  "addSourceTarget tools buildAction err srcTarget s =
     (case s of (buildSources, buildTargets, db) \<Rightarrow>
        (case getFile tools (fst srcTarget) db of (srcFile, db1) \<Rightarrow>
           (let srcFile' = srcFile\<lparr>file_parseStatus :=
                             (if err then PSPartiallyParsed else PSFullyParsed)\<rparr>;
                db2 = updateFile srcFile' db1;
                buildSource = \<lparr>source_file = file_id srcFile',
                                source_action = action_id buildAction\<rparr>
            in (case getFile tools (snd srcTarget) db2 of (tgtFile, db3) \<Rightarrow>
                  (let db4 = (if file_type tgtFile \<noteq> BINARY_TYPE
                              then updateFile (tgtFile\<lparr>file_type := BINARY_TYPE\<rparr>) db3
                              else db3);
                       buildTarget = \<lparr>target_file = file_id tgtFile,
                                       target_action = action_id buildAction\<rparr>
                   in (buildSources @ [buildSource], buildTargets @ [buildTarget], db4))))))"

definition addCompileCommand :: "Tools \<Rightarrow> CompileCommand \<Rightarrow> BuildAction \<Rightarrow> bool \<Rightarrow> Db \<Rightarrow> Db" where
  "addCompileCommand tools command buildAction err db =
     (case fold (addSourceTarget tools buildAction err)
             (entries (extractInputOutputs command)) ([], [], db) of
        (buildSources, buildTargets, db') \<Rightarrow>
          db'\<lparr>BuildSources := BuildSources db' @ buildSources,
              BuildTargets := BuildTargets db' @ buildTargets\<rparr>)"

text \<open>
  \<^verbatim>\<open>worker\<close>. \<^verbatim>\<open>CommandLine.begin() + 1\<close> is past the end of an empty command line.
\<close>

definition worker :: "Tools \<Rightarrow> CompileCommand \<Rightarrow> Db \<Rightarrow> error + int \<times> Db" where
  "worker tools command db =
     (case CommandLine command of
        [] \<Rightarrow> Inl OutOfRange
      | compiler # args \<Rightarrow>
          if \<not> loadFromCommandLine tools (''--'' # args) then Inr (1, db)
          else
            (case addBuildAction command db of (buildAction, db1) \<Rightarrow>
               (case toolRun tools command db1 of (err, db2) \<Rightarrow>
                  Inr (err, addCompileCommand tools command buildAction (err \<noteq> 0) db2))))"

text \<open>
  \<^verbatim>\<open>parseByJson\<close>: the loop that pushes the commands that are not parsed yet, then
  \<^verbatim>\<open>pool->wait()\<close>. The jobs of the queue run one after the other here, in the order of the
  queue; the pool runs them on \<^verbatim>\<open>threadNum\<close> threads, in no fixed order.
\<close>

fun enqueueCommands ::
  "Tools \<Rightarrow> CompileCommand list \<Rightarrow> nat \<Rightarrow> nat set \<times> ParseJob list \<Rightarrow> nat set \<times> ParseJob list" where
  "enqueueCommands tools [] index s = s"
| "enqueueCommands tools (command # commands) index (hashes, queue) =
     (let job = \<lparr>job_command = command, job_index = index + 1\<rparr>;
          hash = fnvHash tools (join (CommandLine command) '' '')
      in if hash \<in> hashes then enqueueCommands tools commands (index + 1) (hashes, queue)
         else enqueueCommands tools commands (index + 1) (insert hash hashes, queue @ [job]))"

fun runJobs :: "Tools \<Rightarrow> ParseJob list \<Rightarrow> Db \<Rightarrow> error + Db" where
  "runJobs tools [] db = Inr db"
| "runJobs tools (job # queue) db =
     bindE (worker tools (job_command job) db) (\<lambda>r. runJobs tools queue (snd r))"

definition parseByJson :: "Tools \<Rightarrow> string \<Rightarrow> nat \<Rightarrow> Parser \<Rightarrow> error + bool \<times> Parser" where
  "parseByJson tools jsonFile threadNum ps =
     (case loadFromFile tools jsonFile of (errorMsg, compileCommands) \<Rightarrow>
        if errorMsg \<noteq> [] then Inr (False, ps)
        else
          (case enqueueCommands tools compileCommands 0 (parsedCommandHashes ps, []) of
             (hashes, queue) \<Rightarrow>
               bindE (runJobs tools queue (ctx_db ps))
                 (\<lambda>db'. Inr (True, ps\<lparr>ctx_db := db', parsedCommandHashes := hashes,
                                      dispatched := dispatched ps @ queue\<rparr>))))"

text \<open>
  \<^verbatim>\<open>parse\<close>: the loop over the inputs, with \<^verbatim>\<open>success = success && parseByJson(...)\<close>, where
  \<^verbatim>\<open>&&\<close> does not evaluate its right operand when \<^verbatim>\<open>success\<close> is false; the part of \<^verbatim>\<open>parse\<close>
  before the loop; and \<^verbatim>\<open>parse\<close>. The mangled name cache that \<^verbatim>\<open>VisitorActionFactory\<close> fills
  and clears belongs to the visitors and is not part of the state here.
\<close>

fun parseInputs :: "Tools \<Rightarrow> nat \<Rightarrow> string list \<Rightarrow> bool \<Rightarrow> Parser \<Rightarrow> error + bool \<times> Parser" where
  "parseInputs tools threadNum [] success ps = Inr (success, ps)"
| "parseInputs tools threadNum (inp # inputs) success ps =
     (if is_regular_file tools inp
      then (if success
            then bindE (parseByJson tools inp threadNum ps)
                   (\<lambda>r. parseInputs tools threadNum inputs (fst r) (snd r))
            else parseInputs tools threadNum inputs False ps)
      else parseInputs tools threadNum inputs success ps)"

definition beginParse :: "Backend \<Rightarrow> Env \<Rightarrow> Options \<Rightarrow> Parser \<Rightarrow> error + Parser" where
  "beginParse backend env options ps =
     (if incremental options
      then (case incrementalParse backend env (fileStatus ps) (ctx_db ps) of
              (r, db') \<Rightarrow> bindE r (\<lambda>st'. Inr (ps\<lparr>ctx_db := db', fileStatus := st'\<rparr>)))
      else Inr ps)"

definition parse :: "Backend \<Rightarrow> Env \<Rightarrow> Tools \<Rightarrow> Options \<Rightarrow> Parser \<Rightarrow> error + bool \<times> Parser" where
  "parse backend env tools options ps =
     bindE (beginParse backend env options ps)
       (\<lambda>ps1. bindE (parseInputs tools (jobs options) (input options) True
                        (initBuildActions tools ps1))
                 (\<lambda>r. Inr (fst r, (snd r)\<lparr>parsedCommandHashes := {}\<rparr>)))"

section \<open>Example stores\<close>

definition emptyDb :: Db where
  "emptyDb = \<lparr>Files = [], CppHeaderInclusions = [], CppAstNodes = [], CppEntities = [],
     CppInheritances = [], CppFriendships = [], CppNodes = [], CppEdges = [],
     BuildActions = [], BuildSources = [], BuildTargets = []\<rparr>"

definition sourceFile :: "nat \<Rightarrow> string \<Rightarrow> string \<Rightarrow> File" where
  "sourceFile i p h = \<lparr>file_id = i, file_path = p, file_type = OTHER_TYPE,
     file_parseStatus = PSFullyParsed, file_contentHash = Some h\<rparr>"

text \<open>
  Two files that include each other, \<^verbatim>\<open>/a.h\<close> changed on disk. The hash function of the
  examples is the identity.
\<close>

definition cycleDb :: Db where
  "cycleDb = emptyDb
     \<lparr>Files := [sourceFile 1 ''/a.h'' ''old'', sourceFile 2 ''/b.h'' ''b''],
      CppHeaderInclusions := [\<lparr>inc_includer = 2, inc_included = 1\<rparr>,
                              \<lparr>inc_includer = 1, inc_included = 2\<rparr>]\<rparr>"

definition cycleEnv :: Env where
  "cycleEnv = \<lparr>disk = [''/a.h'' \<mapsto> ''new'', ''/b.h'' \<mapsto> ''b''], sha1Hash = (\<lambda>s. s)\<rparr>"

text \<open>
  \<^verbatim>\<open>/h.cpp\<close> includes \<^verbatim>\<open>/g.h\<close>, which includes \<^verbatim>\<open>/f.h\<close>; \<^verbatim>\<open>/f.h\<close> has changed on disk,
  \<^verbatim>\<open>/g.h\<close> is no longer there, \<^verbatim>\<open>/h.cpp\<close> is unchanged. The query returns \<^verbatim>\<open>/g.h\<close> first.
\<close>

definition chainDb :: Db where
  "chainDb = emptyDb
     \<lparr>Files := [sourceFile 2 ''/g.h'' ''g'', sourceFile 1 ''/f.h'' ''old'',
                 sourceFile 3 ''/h.cpp'' ''h''],
      CppHeaderInclusions := [\<lparr>inc_includer = 2, inc_included = 1\<rparr>,
                              \<lparr>inc_includer = 3, inc_included = 2\<rparr>]\<rparr>"

definition chainEnv :: Env where
  "chainEnv = \<lparr>disk = [''/f.h'' \<mapsto> ''new'', ''/h.cpp'' \<mapsto> ''h''], sha1Hash = (\<lambda>s. s)\<rparr>"

text \<open>
  \<^verbatim>\<open>/b.cpp\<close> and \<^verbatim>\<open>/c.cpp\<close> include \<^verbatim>\<open>/a.h\<close>; \<^verbatim>\<open>/a.h\<close> is no longer on disk, \<^verbatim>\<open>/b.cpp\<close> has
  changed and \<^verbatim>\<open>/c.cpp\<close> has not.
\<close>

definition deletedHeaderDb :: Db where
  "deletedHeaderDb = emptyDb
     \<lparr>Files := [sourceFile 1 ''/a.h'' ''a'', sourceFile 2 ''/b.cpp'' ''old'',
                 sourceFile 3 ''/c.cpp'' ''c''],
      CppHeaderInclusions := [\<lparr>inc_includer = 2, inc_included = 1\<rparr>,
                              \<lparr>inc_includer = 3, inc_included = 1\<rparr>]\<rparr>"

definition deletedHeaderEnv :: Env where
  "deletedHeaderEnv =
     \<lparr>disk = [''/b.cpp'' \<mapsto> ''new'', ''/c.cpp'' \<mapsto> ''c''], sha1Hash = (\<lambda>s. s)\<rparr>"

text \<open>The same store with \<^verbatim>\<open>/b.cpp\<close> unchanged as well.\<close>

definition deletedHeaderOnlyEnv :: Env where
  "deletedHeaderOnlyEnv =
     \<lparr>disk = [''/b.cpp'' \<mapsto> ''old'', ''/c.cpp'' \<mapsto> ''c''], sha1Hash = (\<lambda>s. s)\<rparr>"

section \<open>Notions used in the proofs\<close>

text \<open>
  For the proofs about \<^verbatim>\<open>addCompileCommand\<close>: the parse status a result stands for, and what
  every step of its loop keeps of the File the source manager has for a path (the File is
  still there, with its id; a parse status equal to the outcome and the type Binary stay).
\<close>

definition outcome :: "bool \<Rightarrow> ParseStatus" where
  "outcome err = (if err then PSPartiallyParsed else PSFullyParsed)"

definition keeps :: "ParseStatus \<Rightarrow> Db \<Rightarrow> Db \<Rightarrow> bool" where
  "keeps X db db' \<longleftrightarrow>
     (\<forall>q g. fileOf db q = Some g \<longrightarrow>
        (\<exists>g'. fileOf db' q = Some g' \<and> file_id g' = file_id g \<and>
              (file_parseStatus g = X \<longrightarrow> file_parseStatus g' = X) \<and>
              (file_type g = BINARY_TYPE \<longrightarrow> file_type g' = BINARY_TYPE)))"

text \<open>
  For the proofs about the cleanup: the ids of the CppNode rows of a store; when a later
  store has lost nodes and edges of an earlier one and none of its edges references a lost
  node; and a backend whose \<^verbatim>\<open>removeFile\<close> leaves the CppNode and CppEdge tables alone.
\<close>

definition nodeIds :: "Db \<Rightarrow> nat set" where
  "nodeIds db = node_id ` set (CppNodes db)"

definition severed :: "Db \<Rightarrow> Db \<Rightarrow> bool" where
  "severed db db' \<longleftrightarrow>
     set (CppEdges db') \<subseteq> set (CppEdges db) \<and> nodeIds db' \<subseteq> nodeIds db \<and>
     (\<forall>e \<in> set (CppEdges db'). edge_from e \<notin> nodeIds db - nodeIds db' \<and>
                                  edge_to e \<notin> nodeIds db - nodeIds db')"

definition keepsGraph :: "Backend \<Rightarrow> bool" where
  "keepsGraph backend \<longleftrightarrow>
     (\<forall>f d d'. removeFile backend f d = Inr d' \<longrightarrow>
        CppNodes d' = CppNodes d \<and> CppEdges d' = CppEdges d)"

section \<open>Example parsers, collaborators and stores\<close>

text \<open>
  A parser that has not run yet; a compile command; collaborators whose hash is the length
  of the string, for which every path is a regular file, \<^verbatim>\<open>bad.json\<close> cannot be loaded and
  every other compilation database holds the one command, and whose parse succeeds and
  writes nothing; a store that records that this command has been parsed.
\<close>

definition freshParser :: "Db \<Rightarrow> Parser" where
  "freshParser db = \<lparr>ctx_db = db, fileStatus = [], parsedCommandHashes = {}, dispatched = []\<rparr>"

definition exCommand :: CompileCommand where
  "exCommand = \<lparr>Directory = ''/d'', Filename = ''a.cpp'', CommandLine = [''gcc'', ''-c'', ''a.cpp'']\<rparr>"

definition exTools :: Tools where
  "exTools = \<lparr>fnvHash = length, newFileId = length, is_regular_file = (\<lambda>p. True),
     loadFromFile = (\<lambda>p. if p = ''bad.json'' then (''cannot load'', []) else ([], [exCommand])),
     loadFromCommandLine = (\<lambda>args. True),
     toolRun = (\<lambda>c db. (0, db))\<rparr>"

text \<open>Collaborators whose parse of a translation unit fails.\<close>

definition failingTools :: Tools where
  "failingTools = \<lparr>fnvHash = length, newFileId = length, is_regular_file = (\<lambda>p. True),
     loadFromFile = (\<lambda>p. ([], [])), loadFromCommandLine = (\<lambda>args. True),
     toolRun = (\<lambda>c db. (1, db))\<rparr>"

definition exBackend :: Backend where
  "exBackend = \<lparr>edgeOnDelete = Cascade, removeFile = removeFileRow\<rparr>"

definition exEnv :: Env where
  "exEnv = \<lparr>disk = [''/d/a.cpp'' \<mapsto> ''int main;''], sha1Hash = (\<lambda>s. s)\<rparr>"

definition recordedDb :: Db where
  "recordedDb = emptyDb
     \<lparr>Files := [sourceFile 7 ''/d/a.cpp'' ''int main;''],
      BuildActions := [\<lparr>action_id = 1, action_command = ''gcc -c a.cpp'', action_type = Compile\<rparr>]\<rparr>"

text \<open>
  A store with a graph. \<^verbatim>\<open>/a.h\<close> (id 1) is gone from disk; it has one definition (AST node
  5), an entity, a build action, and nodes 10 (for the file) and 11 (for the AST node) that
  are connected through node 12. \<^verbatim>\<open>/b.h\<close> (id 2) is unchanged; its node 13 has an edge to
  node 14. \<^verbatim>\<open>graphDbAfter\<close> is the store without everything derived from \<^verbatim>\<open>/a.h\<close>.
\<close>

definition goneEnv :: Env where
  "goneEnv = \<lparr>disk = [''/b.h'' \<mapsto> ''b''], sha1Hash = (\<lambda>s. s)\<rparr>"

definition graphDb :: Db where
  "graphDb =
     \<lparr>Files = [sourceFile 1 ''/a.h'' ''a'', sourceFile 2 ''/b.h'' ''b''],
      CppHeaderInclusions = [],
      CppAstNodes = [\<lparr>ast_id = 5, ast_file = 1, ast_astType = Definition, ast_mangledNameHash = 77\<rparr>],
      CppEntities = [\<lparr>entity_id = 3, entity_mangledNameHash = 77\<rparr>],
      CppInheritances = [], CppFriendships = [],
      CppNodes = [\<lparr>node_id = 10, node_domain = FILE, node_domainId = ''1''\<rparr>,
                  \<lparr>node_id = 11, node_domain = CPPASTNODE, node_domainId = ''5''\<rparr>,
                  \<lparr>node_id = 12, node_domain = OtherDomain, node_domainId = ''x''\<rparr>,
                  \<lparr>node_id = 13, node_domain = FILE, node_domainId = ''2''\<rparr>,
                  \<lparr>node_id = 14, node_domain = OtherDomain, node_domainId = ''y''\<rparr>],
      CppEdges = [\<lparr>edge_id = 1, edge_from = 10, edge_to = 12\<rparr>,
                  \<lparr>edge_id = 2, edge_from = 12, edge_to = 11\<rparr>,
                  \<lparr>edge_id = 3, edge_from = 13, edge_to = 14\<rparr>],
      BuildActions = [\<lparr>action_id = 1, action_command = ''gcc -c a.cpp'', action_type = Compile\<rparr>],
      BuildSources = [\<lparr>source_file = 1, source_action = 1\<rparr>],
      BuildTargets = [\<lparr>target_file = 9, target_action = 1\<rparr>]\<rparr>"

definition graphDbAfter :: Db where
  "graphDbAfter =
     \<lparr>Files = [sourceFile 2 ''/b.h'' ''b''],
      CppHeaderInclusions = [],
      CppAstNodes = [\<lparr>ast_id = 5, ast_file = 1, ast_astType = Definition, ast_mangledNameHash = 77\<rparr>],
      CppEntities = [],
      CppInheritances = [], CppFriendships = [],
      CppNodes = [\<lparr>node_id = 13, node_domain = FILE, node_domainId = ''2''\<rparr>,
                  \<lparr>node_id = 14, node_domain = OtherDomain, node_domainId = ''y''\<rparr>],
      CppEdges = [\<lparr>edge_id = 3, edge_from = 13, edge_to = 14\<rparr>],
      BuildActions = [], BuildSources = [], BuildTargets = []\<rparr>"

text \<open>
  Two files that are both gone from disk, and a backend whose \<^verbatim>\<open>removeFile\<close> fails for the
  second.
\<close>

definition twoGoneDb :: Db where
  "twoGoneDb = emptyDb\<lparr>Files := [sourceFile 1 ''/a.h'' ''a'', sourceFile 2 ''/b.h'' ''b'']\<rparr>"

definition emptyDisk :: Env where
  "emptyDisk = \<lparr>disk = Map.empty, sha1Hash = (\<lambda>s. s)\<rparr>"

definition flakyBackend :: Backend where
  "flakyBackend =
     \<lparr>edgeOnDelete = Cascade,
      removeFile = (\<lambda>f db. if file_path f = ''/b.h'' then Inl StoreError else removeFileRow f db)\<rparr>"

text \<open>A store whose edges form the cycle 1, 2, 3, with 4 attached to 3 and 5, 6 apart.\<close>

definition cyclicDb :: Db where
  "cyclicDb = \<lparr>Files = [], CppHeaderInclusions = [], CppAstNodes = [], CppEntities = [],
     CppInheritances = [], CppFriendships = [], CppNodes = [],
     CppEdges = [\<lparr>edge_id = 1, edge_from = 1, edge_to = 2\<rparr>,
                 \<lparr>edge_id = 2, edge_from = 2, edge_to = 3\<rparr>,
                 \<lparr>edge_id = 3, edge_from = 3, edge_to = 1\<rparr>,
                 \<lparr>edge_id = 4, edge_from = 4, edge_to = 3\<rparr>,
                 \<lparr>edge_id = 5, edge_from = 5, edge_to = 6\<rparr>],
     BuildActions = [], BuildSources = [], BuildTargets = []\<rparr>"

section \<open>Properties of extractInputOutputs\<close>

lemma scanArgs_snoc:
  "scanArgs dir (args @ [a]) = scanArg dir (scanArgs dir args) a"
  by (simp add: scanArgs_def)

lemma foldl_scanArg_sources_mono:
  "sources s \<subseteq> sources (foldl (scanArg dir) s args)"
proof (induction args arbitrary: s)
  case Nil
  show ?case by simp
next
  case (Cons a args)
  have "sources s \<subseteq> sources (scanArg dir s a)"
    by (auto simp: scanArg_def)
  also have "\<dots> \<subseteq> sources (foldl (scanArg dir) (scanArg dir s a) args)"
    by (rule Cons.IH)
  finally show ?case by simp
qed

lemma scanArg_state_OParam:
  "state (scanArg dir s a) = OParam \<Longrightarrow> a = ''-o''"
  by (auto simp: scanArg_def split: if_splits)

lemma dom_extractInputOutputs:
  "dom (extractInputOutputs c) = sources (scanArgs (Directory c) (CommandLine c))"
  by (auto simp: extractInputOutputs_def Let_def dom_def split: if_splits)

lemma state_before_arg:
  assumes "i < length args" and "i = 0 \<or> args ! (i - 1) \<noteq> ''-o''"
  shows "state (scanArgs dir (take i args)) = NoneState"
proof (cases i)
  case 0
  then show ?thesis by (simp add: scanArgs_def scanInit_def)
next
  case (Suc j)
  with assms have j: "j < length args" and prev: "args ! j \<noteq> ''-o''" by auto
  have "take i args = take j args @ [args ! j]"
    using Suc j by (simp add: take_Suc_conv_app_nth)
  then have "scanArgs dir (take i args) = scanArg dir (scanArgs dir (take j args)) (args ! j)"
    by (simp add: scanArgs_snoc)
  with prev scanArg_state_OParam [of dir "scanArgs dir (take j args)" "args ! j"]
  show ?thesis by (cases "state (scanArgs dir (take i args))") auto
qed

text \<open>
  C5 (the code's behaviour at the claim's own example). For \<^verbatim>\<open>["gcc","-c","a.cpp"]\<close> in
  directory \<^verbatim>\<open>/d\<close> the only entry of the result maps \<^verbatim>\<open>/d/a.cpp\<close> to \<^verbatim>\<open>/d/.o\<close>:
  \<^verbatim>\<open>extension\<close> already holds the dot, so \<^verbatim>\<open>size() - extension.size() - 1\<close> drops the last
  character of the stem as well (\<^verbatim>\<open>/d/main.cpp\<close> becomes \<^verbatim>\<open>/d/mai.o\<close>). The claim expects
  \<^verbatim>\<open>/d/a.o\<close>.
\<close>

theorem extractInputOutputs_c_without_o_example:
  "extractInputOutputs
     \<lparr>Directory = ''/d'', Filename = ''a.cpp'', CommandLine = [''gcc'', ''-c'', ''a.cpp'']\<rparr>
   = [''/d/a.cpp'' \<mapsto> ''/d/.o''] \<and>
   extractInputOutputs
     \<lparr>Directory = ''/d'', Filename = ''main.cpp'', CommandLine = [''gcc'', ''-c'', ''main.cpp'']\<rparr>
   = [''/d/main.cpp'' \<mapsto> ''/d/mai.o'']"
  by (intro conjI ext)
     (simp_all add: extractInputOutputs_def scanArgs_def scanArg_def scanInit_def
        isSourceFile_def isNonSourceFlag_def extension_def filename_def cppExts_def
        absolute_def tolower_def objectOf_def substr0_def size_t_sub_def)

text \<open>
  C10 (as amended). An argument whose lower-cased extension is one of the recognised ones
  becomes an input (a key of the result, as an absolute path) whenever it does not begin
  with \<^verbatim>\<open>-Wl,\<close> and is not the operand of \<^verbatim>\<open>-o\<close> (the argument before it is not \<^verbatim>\<open>-o\<close>).
\<close>

theorem extension_case_insensitive_input:
  assumes "i < length (CommandLine c)"
    and "map tolower (extension (CommandLine c ! i)) \<in> set cppExts"
    and "\<not> isNonSourceFlag (CommandLine c ! i)"
    and "i = 0 \<or> CommandLine c ! (i - 1) \<noteq> ''-o''"
  shows "absolute (CommandLine c ! i) (Directory c) \<in> dom (extractInputOutputs c)"
proof -
  let ?args = "CommandLine c" and ?d = "Directory c"
  let ?s = "scanArgs ?d (take i ?args)"
  have st: "state ?s = NoneState"
    using assms(1,4) by (rule state_before_arg)
  have split: "?args = take i ?args @ ?args ! i # drop (Suc i) ?args"
    using assms(1) by (simp add: id_take_nth_drop [symmetric])
  have "scanArgs ?d ?args = foldl (scanArg ?d) (scanArg ?d ?s (?args ! i)) (drop (Suc i) ?args)"
    by (subst split) (simp add: scanArgs_def)
  moreover have "absolute (?args ! i) ?d \<in> sources (scanArg ?d ?s (?args ! i))"
    using st assms(2,3) by (simp add: scanArg_def isSourceFile_def)
  ultimately have "absolute (?args ! i) ?d \<in> sources (scanArgs ?d ?args)"
    using foldl_scanArg_sources_mono [of "scanArg ?d ?s (?args ! i)" ?d "drop (Suc i) ?args"]
    by auto
  then show ?thesis by (simp add: dom_extractInputOutputs)
qed

theorem extension_case_insensitive_input_witness:
  "absolute ''A.CPP'' ''/d''
     \<in> dom (extractInputOutputs
         \<lparr>Directory = ''/d'', Filename = ''A.CPP'', CommandLine = [''gcc'', ''-c'', ''A.CPP'']\<rparr>)"
  using extension_case_insensitive_input
    [of 2 "\<lparr>Directory = ''/d'', Filename = ''A.CPP'', CommandLine = [''gcc'', ''-c'', ''A.CPP'']\<rparr>"]
  by (simp add: isNonSourceFlag_def extension_def filename_def cppExts_def tolower_def)

text \<open>
  C10 as stated fails for the operand of \<^verbatim>\<open>-o\<close>: in \<^verbatim>\<open>["gcc","-o","A.O"]\<close> the argument
  \<^verbatim>\<open>A.O\<close> has a recognised extension up to case and is taken as the output, not as an input.
\<close>

theorem extension_case_insensitive_counterexample:
  "map tolower (extension ''A.O'') \<in> set cppExts \<and>
   extractInputOutputs
     \<lparr>Directory = ''/d'', Filename = ''A.O'', CommandLine = [''gcc'', ''-o'', ''A.O'']\<rparr>
     (absolute ''A.O'' ''/d'') = None"
  by (simp add: extractInputOutputs_def scanArgs_def scanArg_def scanInit_def
        isSourceFile_def isNonSourceFlag_def extension_def filename_def cppExts_def
        absolute_def tolower_def)

section \<open>Properties of collectNodeSet\<close>

lemma neighbours_undirected:
  "y \<in> neighbours (CppEdges db) x \<longleftrightarrow> (x, y) \<in> undirected db"
  by (auto simp: neighbours_def undirected_def fromTargets_def toTargets_def)

lemma processQueueLoop_closed:
  assumes "set q \<subseteq> nodes"
    and "\<forall>x \<in> nodes - set q. neighbours es x \<subseteq> nodes"
  shows "nodes \<subseteq> processQueueLoop es nodes q \<and>
         (\<forall>x \<in> processQueueLoop es nodes q. neighbours es x \<subseteq> processQueueLoop es nodes q)"
  using assms
proof (induction es nodes q rule: processQueueLoop.induct)
  case (1 es nodes)
  then show ?case by simp
next
  case (2 es nodes nodeId q)
  from expand_eq [of es nodeId nodes q] obtain new where
    e: "expand es nodeId (nodes, q) = (nodes \<union> neighbours es nodeId, q @ new)"
    and new: "set new = neighbours es nodeId - nodes" by blast
  let ?nodes' = "nodes \<union> neighbours es nodeId" and ?q' = "q @ new"
  have a: "set ?q' \<subseteq> ?nodes'" using "2.prems"(1) new by auto
  have b: "\<forall>x \<in> ?nodes' - set ?q'. neighbours es x \<subseteq> ?nodes'"
    using "2.prems" new by auto
  from "2.IH" [OF e [symmetric] a b] e
  show ?case by auto
qed

lemma processQueueLoop_sound:
  assumes "nodes \<subseteq> component db n" and "set q \<subseteq> nodes" and "es = CppEdges db"
  shows "processQueueLoop es nodes q \<subseteq> component db n"
  using assms
proof (induction es nodes q rule: processQueueLoop.induct)
  case (1 es nodes)
  then show ?case by simp
next
  case (2 es nodes nodeId q)
  from expand_eq [of es nodeId nodes q] obtain new where
    e: "expand es nodeId (nodes, q) = (nodes \<union> neighbours es nodeId, q @ new)"
    and new: "set new = neighbours es nodeId - nodes" by blast
  have "nodeId \<in> component db n" using "2.prems"(1,2) by auto
  then have "neighbours es nodeId \<subseteq> component db n"
    using "2.prems"(3)
    by (auto simp: component_def neighbours_undirected intro: rtrancl_into_rtrancl)
  then have a: "nodes \<union> neighbours es nodeId \<subseteq> component db n"
    using "2.prems"(1) by auto
  have b: "set (q @ new) \<subseteq> nodes \<union> neighbours es nodeId"
    using "2.prems"(2) new by auto
  from "2.IH" [OF e [symmetric] a b "2.prems"(3)] e show ?case by simp
qed

lemma collectNodeSet_component: "collectNodeSet db n = component db n"
proof
  show "collectNodeSet db n \<subseteq> component db n"
    unfolding collectNodeSet_def
    by (rule processQueueLoop_sound) (auto simp: component_def)
next
  let ?R = "collectNodeSet db n"
  have cl: "{n} \<subseteq> ?R \<and> (\<forall>x \<in> ?R. neighbours (CppEdges db) x \<subseteq> ?R)"
    unfolding collectNodeSet_def by (rule processQueueLoop_closed) auto
  have "m \<in> ?R" if "(n, m) \<in> (undirected db)\<^sup>*" for m
    using that
  proof (induction rule: rtrancl_induct)
    case base
    from cl show ?case by simp
  next
    case (step y z)
    then have "z \<in> neighbours (CppEdges db) y" by (simp add: neighbours_undirected)
    with step.IH cl show ?case by blast
  qed
  then show "component db n \<subseteq> ?R" by (auto simp: component_def)
qed

lemma visitOrder_distinct:
  assumes "distinct q" and "set q \<subseteq> nodes"
  shows "distinct (visitOrder es nodes q) \<and> set (visitOrder es nodes q) \<inter> (nodes - set q) = {}"
  using assms
proof (induction es nodes q rule: visitOrder.induct)
  case (1 es nodes)
  then show ?case by simp
next
  case (2 es nodes nodeId q)
  from expand_eq [of es nodeId nodes q] obtain new where
    e: "expand es nodeId (nodes, q) = (nodes \<union> neighbours es nodeId, q @ new)"
    and new: "set new = neighbours es nodeId - nodes" "distinct new" by blast
  let ?nodes' = "nodes \<union> neighbours es nodeId" and ?q' = "q @ new"
  have a: "distinct ?q'" using "2.prems" new by auto
  have b: "set ?q' \<subseteq> ?nodes'" using "2.prems" new by auto
  from "2.IH" [OF e [symmetric] a b]
  have ih: "distinct (visitOrder es ?nodes' ?q')"
    "set (visitOrder es ?nodes' ?q') \<inter> (?nodes' - set ?q') = {}" by auto
  have "nodeId \<in> ?nodes' - set ?q'" using "2.prems" new by auto
  with ih(2) have "nodeId \<notin> set (visitOrder es ?nodes' ?q')" by blast
  moreover have "nodes - set (nodeId # q) \<subseteq> ?nodes' - set ?q'" using new by auto
  ultimately show ?case using ih e by auto
qed

lemma visitOrder_set:
  assumes "set q \<subseteq> nodes"
  shows "set q \<subseteq> set (visitOrder es nodes q) \<and>
         processQueueLoop es nodes q = nodes \<union> set (visitOrder es nodes q)"
  using assms
proof (induction es nodes q rule: visitOrder.induct)
  case (1 es nodes)
  then show ?case by simp
next
  case (2 es nodes nodeId q)
  from expand_eq [of es nodeId nodes q] obtain new where
    e: "expand es nodeId (nodes, q) = (nodes \<union> neighbours es nodeId, q @ new)"
    and new: "set new = neighbours es nodeId - nodes" by blast
  let ?nodes' = "nodes \<union> neighbours es nodeId" and ?q' = "q @ new"
  have b: "set ?q' \<subseteq> ?nodes'" using "2.prems" new by auto
  from "2.IH" [OF e [symmetric] b]
  have ih: "set ?q' \<subseteq> set (visitOrder es ?nodes' ?q')"
    "processQueueLoop es ?nodes' ?q' = ?nodes' \<union> set (visitOrder es ?nodes' ?q')" by auto
  show ?case using ih e new "2.prems" by auto
qed

lemma collectNodeSet_cyclic_example:
  "collectNodeSet cyclicDb 1 = {1, 2, 3, 4} \<and> collectNodeSet_visits cyclicDb 1 = [1, 2, 3, 4]"
  by (simp add: collectNodeSet_def collectNodeSet_visits_def cyclicDb_def expand_def
        fromTargets_def toTargets_def insert_commute)

text \<open>
  C4. On every edge table (a finite list of rows, cycles or not) \<^verbatim>\<open>collectNodeSet\<close> is a
  total function, so the loop ends; its result is exactly the start node together with the
  nodes connected to it by edges read in either direction; and the loop takes each node of
  the result as its current node exactly once.
\<close>

theorem collectNodeSet_correct:
  "collectNodeSet db n = component db n \<and>
   distinct (collectNodeSet_visits db n) \<and>
   set (collectNodeSet_visits db n) = collectNodeSet db n"
proof -
  have d: "distinct (collectNodeSet_visits db n)"
    unfolding collectNodeSet_visits_def
    using visitOrder_distinct [of "[n]" "{n}" "CppEdges db"] by simp
  have s: "set [n] \<subseteq> set (visitOrder (CppEdges db) {n} [n]) \<and>
      processQueueLoop (CppEdges db) {n} [n] = {n} \<union> set (visitOrder (CppEdges db) {n} [n])"
    by (rule visitOrder_set) simp
  then have "set (collectNodeSet_visits db n) = collectNodeSet db n"
    unfolding collectNodeSet_visits_def collectNodeSet_def by auto
  with d collectNodeSet_component show ?thesis by simp
qed

section \<open>Properties of the classification\<close>

lemma keys_dom: "keys st = dom (map_of st)"
  by (simp add: keys_def dom_map_of_conv_image_fst)

lemma map_of_insert_new:
  "p \<notin> keys st \<Longrightarrow> map_of (fileStatus_insert st (p, s)) = (map_of st)(p \<mapsto> s)"
proof -
  assume "p \<notin> keys st"
  then have "map_of st p = None" "fileStatus_insert st (p, s) = st @ [(p, s)]"
    by (auto simp: keys_def map_of_eq_None_iff fileStatus_insert_def)
  then show ?thesis
    by (auto simp: map_add_def fun_eq_iff split: option.splits)
qed

lemma fileStatus_insert_old:
  "p \<in> keys st \<Longrightarrow> fileStatus_insert st (p, s) = st"
  by (simp add: fileStatus_insert_def keys_def)

lemma good_keys: "good db st st' \<Longrightarrow> keys st \<subseteq> keys st'"
  by (auto simp: good_def keys_dom dest: map_le_implies_dom_le)

lemma good_refl: "good db st st"
  by (simp add: good_def)

lemma good_trans:
  assumes "good db st st1" and "good db st1 st2"
  shows "good db st st2"
proof -
  have k: "keys st \<subseteq> keys st1" "keys st1 \<subseteq> keys st2"
    using assms by (auto dest: good_keys)
  have le: "map_of st \<subseteq>\<^sub>m map_of st1" "map_of st1 \<subseteq>\<^sub>m map_of st2"
    using assms by (auto simp: good_def)
  have 1: "map_of st \<subseteq>\<^sub>m map_of st2"
    using le by (rule map_le_trans)
  have 2: "map_of st2 p = Some MODIFIED" if "p \<in> keys st2 - keys st" for p
  proof (cases "p \<in> keys st1")
    case True
    with that assms(1) have "map_of st1 p = Some MODIFIED" by (auto simp: good_def)
    with le(2) True show ?thesis by (auto simp: map_le_def keys_dom)
  next
    case False
    with that assms(2) show ?thesis by (auto simp: good_def)
  qed
  have 3: "file_path g \<in> keys st2"
    if "(g, m) \<in> includesFile db" "file_path m \<in> keys st2 - keys st" for g m
  proof (cases "file_path m \<in> keys st1")
    case True
    with that assms(1) have "file_path g \<in> keys st1" by (auto simp: good_def)
    with k show ?thesis by auto
  next
    case False
    with that assms(2) show ?thesis by (auto simp: good_def)
  qed
  show ?thesis unfolding good_def using 1 2 3 by auto
qed


lemma wellFormed_loadFile:
  assumes "wellFormed db" and "g \<in> set (Files db)"
  shows "loadFile db (file_id g) = Some g"
proof -
  from assms(2) obtain f where f: "loadFile db (file_id g) = Some f"
    by (cases "loadFile db (file_id g)") (auto simp: loadFile_def find_None_iff)
  then have "f \<in> set (Files db)" "file_id f = file_id g" by (auto dest: loadFile_Some)
  with assms have "f = g"
    by (auto simp: wellFormed_def distinct_map dest: inj_onD)
  with f show ?thesis by simp
qed

lemma wellFormed_path_inj:
  "wellFormed db \<Longrightarrow> f \<in> set (Files db) \<Longrightarrow> g \<in> set (Files db) \<Longrightarrow>
   file_path f = file_path g \<Longrightarrow> f = g"
  by (auto simp: wellFormed_def distinct_map dest: inj_onD)

lemma wellFormed_includer:
  assumes "wellFormed db" and "inc \<in> set (CppHeaderInclusions db)"
  shows "\<exists>g \<in> set (Files db). loadFile db (inc_includer inc) = Some g \<and> file_id g = inc_includer inc"
proof -
  from assms obtain g where "g \<in> set (Files db)" "file_id g = inc_includer inc"
    by (auto simp: wellFormed_def list_all_iff)
  with wellFormed_loadFile [OF assms(1), of g] show ?thesis by auto
qed

lemma mark_spec:
  "wellFormed db \<longrightarrow> f \<in> set (Files db) \<longrightarrow>
     (\<exists>st'. markAsModified db f st = Inr st' \<and> good db st st' \<and> file_path f \<in> keys st')"
  "wellFormed db \<longrightarrow> set incs \<subseteq> set (CppHeaderInclusions db) \<longrightarrow>
     (\<exists>st'. markIncluders db incs st = Inr st' \<and> good db st st' \<and>
        (\<forall>inc \<in> set incs. \<forall>g \<in> set (Files db).
           file_id g = inc_includer inc \<longrightarrow> file_path g \<in> keys st'))"
proof (induction db f st and db incs st rule: markAsModified_markIncluders.induct)
  case (1 db f st)
  show ?case
  proof (intro impI)
    assume wf: "wellFormed db" and f: "f \<in> set (Files db)"
    show "\<exists>st'. markAsModified db f st = Inr st' \<and> good db st st' \<and> file_path f \<in> keys st'"
    proof (cases "file_path f \<in> keys st")
      case True
      then show ?thesis by (auto simp: count_0_iff good_refl)
    next
      case False
      let ?st1 = "fileStatus_insert st (file_path f, MODIFIED)"
      have sub: "set (includedBy db f) \<subseteq> set (CppHeaderInclusions db)"
        by (auto simp: includedBy_def)
      from False "1.IH" wf sub obtain st' where
        r: "markIncluders db (includedBy db f) ?st1 = Inr st'" and
        g: "good db ?st1 st'" and
        c: "\<forall>inc \<in> set (includedBy db f). \<forall>g \<in> set (Files db).
              file_id g = inc_includer inc \<longrightarrow> file_path g \<in> keys st'"
        by (auto simp: count_0_iff)
      have k1: "keys ?st1 = insert (file_path f) (keys st)" by (simp add: keys_insert)
      have m1: "map_of ?st1 = (map_of st)(file_path f \<mapsto> MODIFIED)"
        using False by (rule map_of_insert_new)
      have kk: "keys ?st1 \<subseteq> keys st'" using g by (rule good_keys)
      have le: "map_of ?st1 \<subseteq>\<^sub>m map_of st'" using g by (simp add: good_def)
      have a: "map_of st \<subseteq>\<^sub>m map_of st'"
      proof -
        have "map_of st \<subseteq>\<^sub>m map_of ?st1"
          using False by (auto simp: m1 map_le_def keys_dom)
        then show ?thesis using le by (rule map_le_trans)
      qed
      have b: "map_of st' p = Some MODIFIED" if "p \<in> keys st' - keys st" for p
      proof (cases "p = file_path f")
        case True
        then have "map_of ?st1 p = Some MODIFIED" by (simp add: m1)
        with le show ?thesis by (auto simp: map_le_def domIff dest!: bspec [where x = p])
      next
        case False
        with that k1 have "p \<in> keys st' - keys ?st1" by auto
        with g show ?thesis by (auto simp: good_def)
      qed
      have d: "file_path g \<in> keys st'"
        if "(g, m) \<in> includesFile db" "file_path m \<in> keys st' - keys st" for g m
      proof (cases "file_path m = file_path f")
        case True
        from that(1) have gm: "g \<in> set (Files db)" "m \<in> set (Files db)"
          by (auto simp: includesFile_def)
        with True wf f have "m = f" by (auto dest: wellFormed_path_inj)
        with that(1) obtain inc where "inc \<in> set (includedBy db f)" "inc_includer inc = file_id g"
          by (auto simp: includesFile_def includedBy_def)
        with c gm show ?thesis by auto
      next
        case False
        with that k1 have "file_path m \<in> keys st' - keys ?st1" by auto
        with g that(1) show ?thesis by (auto simp: good_def)
      qed
      have "good db st st'" unfolding good_def using a b d by auto
      moreover have "file_path f \<in> keys st'" using kk k1 by auto
      moreover have "markAsModified db f st = Inr st'"
        using False r by (simp add: count_0_iff)
      ultimately show ?thesis by blast
    qed
  qed
next
  case (2 db st)
  show ?case by (simp add: good_refl)
next
  case (3 db inc incs st)
  show ?case
  proof (intro impI)
    assume wf: "wellFormed db" and sub: "set (inc # incs) \<subseteq> set (CppHeaderInclusions db)"
    from wellFormed_includer [OF wf, of inc] sub obtain g where
      g: "g \<in> set (Files db)" "loadFile db (inc_includer inc) = Some g"
         "file_id g = inc_includer inc" by auto
    from "3.IH"(1) [OF g(2)] wf g(1) obtain st1 where
      1: "markAsModified db g st = Inr st1" "good db st st1" "file_path g \<in> keys st1"
      by blast
    from "3.IH"(2) [OF g(2) 1(1)] wf sub obtain st' where
      2: "markIncluders db incs st1 = Inr st'" "good db st1 st'"
         "\<forall>inc \<in> set incs. \<forall>g \<in> set (Files db).
            file_id g = inc_includer inc \<longrightarrow> file_path g \<in> keys st'"
      by auto
    have gd: "good db st st'" using 1(2) 2(2) by (rule good_trans)
    have k: "keys st1 \<subseteq> keys st'" using 2(2) by (rule good_keys)
    have "file_path h \<in> keys st'"
      if "h \<in> set (Files db)" "file_id h = inc_includer inc" for h
    proof -
      from wellFormed_loadFile [OF wf that(1)] that(2) g(2) have "h = g" by simp
      with 1(3) k show ?thesis by auto
    qed
    with 2(3) have "\<forall>i \<in> set (inc # incs). \<forall>g \<in> set (Files db).
            file_id g = inc_includer i \<longrightarrow> file_path g \<in> keys st'" by auto
    moreover have "markIncluders db (inc # incs) st = Inr st'"
      using g(2) 1(1) 2(1) by simp
    ultimately show "\<exists>st'. markIncluders db (inc # incs) st = Inr st' \<and> good db st st' \<and>
        (\<forall>inc \<in> set (inc # incs). \<forall>g \<in> set (Files db).
           file_id g = inc_includer inc \<longrightarrow> file_path g \<in> keys st')"
      using gd by blast
  qed
qed


lemma classInv_good:
  assumes inv: "classInv env db st" and g: "good db st st'"
  shows "classInv env db st'"
proof -
  have le: "map_of st \<subseteq>\<^sub>m map_of st'" using g by (simp add: good_def)
  have k: "keys st \<subseteq> keys st'" using g by (rule good_keys)
  have old: "map_of st' p = map_of st p" if "p \<in> keys st" for p
    using le that by (auto simp: map_le_def keys_dom)
  have 1: "s = MODIFIED" if "map_of st' p = Some s" "disk env p \<noteq> None" for p s
  proof (cases "p \<in> keys st")
    case True
    with that old inv show ?thesis by (auto simp: classInv_def)
  next
    case False
    from that(1) have "p \<in> keys st'" by (auto simp: keys_dom)
    with False g that(1) show ?thesis by (auto simp: good_def)
  qed
  have 2: "file_path h \<in> keys st'"
    if "(h, m) \<in> includesFile db" "map_of st' (file_path m) = Some MODIFIED" for h m
  proof (cases "file_path m \<in> keys st")
    case True
    with that old inv k show ?thesis by (fastforce simp: classInv_def)
  next
    case False
    from that(2) have "file_path m \<in> keys st'" by (auto simp: keys_dom)
    with False g that(1) show ?thesis by (auto simp: good_def)
  qed
  show ?thesis unfolding classInv_def using 1 2 by blast
qed

lemma classInv_deleted:
  assumes inv: "classInv env db st" and gone: "disk env p = None"
  shows "classInv env db (fileStatus_insert st (p, DELETED))"
proof (cases "p \<in> keys st")
  case True
  with inv show ?thesis by (simp add: fileStatus_insert_old)
next
  case False
  then have m: "map_of (fileStatus_insert st (p, DELETED)) = (map_of st)(p \<mapsto> DELETED)"
    by (rule map_of_insert_new)
  show ?thesis
    unfolding classInv_def m keys_insert
    using inv gone by (auto simp: classInv_def split: if_splits)
qed

lemma classifyFile_spec:
  assumes wf: "wellFormed db" and f: "fl \<in> set (Files db)" and inv: "classInv env db st"
  shows "\<exists>st'. classifyFile env db fl st = Inr st' \<and> classInv env db st' \<and>
           map_of st \<subseteq>\<^sub>m map_of st' \<and>
           (changedOnDisk env fl \<longrightarrow> map_of st' (file_path fl) = Some MODIFIED)"
proof (cases "disk env (file_path fl)")
  case None
  let ?st' = "fileStatus_insert st (file_path fl, DELETED)"
  have "map_of st \<subseteq>\<^sub>m map_of ?st'"
  proof (cases "file_path fl \<in> keys st")
    case True
    then show ?thesis by (simp add: fileStatus_insert_old)
  next
    case False
    then show ?thesis by (auto simp: map_of_insert_new map_le_def keys_dom)
  qed
  with None classInv_deleted [OF inv None] show ?thesis
    by (auto simp: classifyFile_def changedOnDisk_def split: option.splits)
next
  case (Some c)
  show ?thesis
  proof (cases "file_path fl \<in> keys st")
    case True
    then obtain s where s: "map_of st (file_path fl) = Some s" by (auto simp: keys_dom)
    with inv Some have "s = MODIFIED" by (auto simp: classInv_def)
    with s True Some inv show ?thesis
      by (auto simp: classifyFile_def count_0_iff)
  next
    case False
    show ?thesis
    proof (cases "changedOnDisk env fl")
      case False
      with Some \<open>file_path fl \<notin> keys st\<close> inv show ?thesis
        by (auto simp: classifyFile_def changedOnDisk_def count_0_iff split: option.splits)
    next
      case True
      from mark_spec(1) [of db fl st] wf f obtain st' where
        m: "markAsModified db fl st = Inr st'" "good db st st'" "file_path fl \<in> keys st'"
        by blast
      from m(2,3) False have "map_of st' (file_path fl) = Some MODIFIED"
        by (auto simp: good_def)
      moreover have "classifyFile env db fl st = Inr st'"
        using True Some False m(1)
        by (auto simp: classifyFile_def changedOnDisk_def count_0_iff split: option.splits)
      moreover have "map_of st \<subseteq>\<^sub>m map_of st'" using m(2) by (simp add: good_def)
      ultimately show ?thesis using classInv_good [OF inv m(2)] by blast
    qed
  qed
qed

lemma classifyFiles_spec:
  assumes wf: "wellFormed db" and fs: "set fs \<subseteq> set (Files db)" and inv: "classInv env db st"
  shows "\<exists>st'. classifyFiles env db fs st = Inr st' \<and> classInv env db st' \<and>
           map_of st \<subseteq>\<^sub>m map_of st' \<and>
           (\<forall>f \<in> set fs. changedOnDisk env f \<longrightarrow> map_of st' (file_path f) = Some MODIFIED)"
  using fs inv
proof (induction fs arbitrary: st)
  case Nil
  then show ?case by simp
next
  case (Cons fl fs)
  from classifyFile_spec [OF wf _ Cons.prems(2), of fl] Cons.prems(1) obtain st1 where
    1: "classifyFile env db fl st = Inr st1" "classInv env db st1"
       "map_of st \<subseteq>\<^sub>m map_of st1"
       "changedOnDisk env fl \<longrightarrow> map_of st1 (file_path fl) = Some MODIFIED"
    by auto
  from Cons.IH [OF _ 1(2)] Cons.prems(1) obtain st' where
    2: "classifyFiles env db fs st1 = Inr st'" "classInv env db st'"
       "map_of st1 \<subseteq>\<^sub>m map_of st'"
       "\<forall>f \<in> set fs. changedOnDisk env f \<longrightarrow> map_of st' (file_path f) = Some MODIFIED"
    by auto
  have "map_of st \<subseteq>\<^sub>m map_of st'" using 1(3) 2(3) by (rule map_le_trans)
  moreover have "changedOnDisk env fl \<longrightarrow> map_of st' (file_path fl) = Some MODIFIED"
    using 1(4) 2(3) by (auto simp: map_le_def domIff dest!: bspec [where x = "file_path fl"])
  ultimately show ?case using 1(1) 2 by auto
qed

lemma classInv_chain:
  assumes inv: "classInv env db st"
    and F: "map_of st (file_path f) = Some MODIFIED"
    and chain: "(g, f) \<in> (includesOnDisk env db)\<^sup>+"
  shows "map_of st (file_path g) = Some MODIFIED"
  using chain F
proof (induction rule: converse_trancl_induct)
  case (base y)
  then have "(y, f) \<in> includesFile db" "disk env (file_path y) \<noteq> None"
    by (auto simp: includesOnDisk_def)
  with inv base.prems have "file_path y \<in> keys st" by (auto simp: classInv_def)
  then obtain s where "map_of st (file_path y) = Some s" by (auto simp: keys_dom)
  with inv \<open>disk env (file_path y) \<noteq> None\<close> show ?case by (auto simp: classInv_def)
next
  case (step y z)
  then have z: "map_of st (file_path z) = Some MODIFIED" by simp
  from step(1) have "(y, z) \<in> includesFile db" "disk env (file_path y) \<noteq> None"
    by (auto simp: includesOnDisk_def)
  with inv z have "file_path y \<in> keys st" by (auto simp: classInv_def)
  then obtain s where "map_of st (file_path y) = Some s" by (auto simp: keys_dom)
  with inv \<open>disk env (file_path y) \<noteq> None\<close> show ?case by (auto simp: classInv_def)
qed

text \<open>
  C1 (as amended). On a well-formed store, starting from an empty \<^verbatim>\<open>_fileStatus\<close>, the
  classification returns a map (the cascade ends, on cyclic inclusions too), and for every
  file \<^verbatim>\<open>f\<close> the query returns whose stored content hash differs from the hash of its
  content on disk, \<^verbatim>\<open>f\<close> is \<^verbatim>\<open>MODIFIED\<close> and so is every file \<^verbatim>\<open>g\<close> that includes \<^verbatim>\<open>f\<close> through
  a chain of inclusions whose including files all exist on disk.
\<close>

theorem cascade_marks_transitive_includers:
  assumes wf: "wellFormed db"
    and F: "f \<in> set (queryFiles db)" "changedOnDisk env f"
    and chain: "(g, f) \<in> (includesOnDisk env db)\<^sup>+"
  shows "\<exists>st. classifyFiles env db (queryFiles db) [] = Inr st \<and>
           map_of st (file_path f) = Some MODIFIED \<and>
           map_of st (file_path g) = Some MODIFIED"
proof -
  have "classInv env db []" by (simp add: classInv_def)
  from classifyFiles_spec [OF wf _ this, of "queryFiles db"] obtain st where
    st: "classifyFiles env db (queryFiles db) [] = Inr st" "classInv env db st"
        "\<forall>f \<in> set (queryFiles db). changedOnDisk env f \<longrightarrow> map_of st (file_path f) = Some MODIFIED"
    by (auto simp: queryFiles_def)
  with F have "map_of st (file_path f) = Some MODIFIED" by blast
  with classInv_chain [OF st(2) this chain] st(1) show ?thesis by blast
qed

theorem cascade_marks_transitive_includers_witness:
  "\<exists>st. classifyFiles cycleEnv cycleDb (queryFiles cycleDb) [] = Inr st \<and>
        map_of st ''/a.h'' = Some MODIFIED \<and> map_of st ''/b.h'' = Some MODIFIED"
proof -
  let ?a = "sourceFile 1 ''/a.h'' ''old''" and ?b = "sourceFile 2 ''/b.h'' ''b''"
  have wf: "wellFormed cycleDb"
    by (simp add: wellFormed_def cycleDb_def emptyDb_def sourceFile_def)
  have q: "?a \<in> set (queryFiles cycleDb)"
    by (simp add: queryFiles_def cycleDb_def emptyDb_def sourceFile_def)
  have ch: "changedOnDisk cycleEnv ?a"
    by (simp add: changedOnDisk_def cycleEnv_def sourceFile_def)
  have "(?b, ?a) \<in> includesOnDisk cycleEnv cycleDb"
    by (simp add: includesOnDisk_def includesFile_def cycleDb_def cycleEnv_def emptyDb_def sourceFile_def)
  then have "(?b, ?a) \<in> (includesOnDisk cycleEnv cycleDb)\<^sup>+" by (rule r_into_trancl)
  from cascade_marks_transitive_includers [OF wf q ch this]
  show ?thesis by (simp add: sourceFile_def)
qed

text \<open>
  The classification of the two files that include each other, computed.
\<close>

lemma classifyFiles_cycle_example:
  "classifyFiles cycleEnv cycleDb (queryFiles cycleDb) [] = Inr [(''/a.h'', MODIFIED), (''/b.h'', MODIFIED)]"
  by (simp add: cycleEnv_def cycleDb_def emptyDb_def sourceFile_def queryFiles_def classifyFile_def
      fileStatus_count_def fileStatus_insert_def includedBy_def loadFile_def)

text \<open>
  C1 as stated fails where an including file is gone from disk. In \<^verbatim>\<open>chainDb\<close> the file
  \<^verbatim>\<open>/f.h\<close> has changed, \<^verbatim>\<open>/g.h\<close> includes it and \<^verbatim>\<open>/h.cpp\<close> includes \<^verbatim>\<open>/g.h\<close>. The loop
  reaches \<^verbatim>\<open>/g.h\<close> first and classifies it \<^verbatim>\<open>DELETED\<close>; the cascade from \<^verbatim>\<open>/f.h\<close> stops at
  \<^verbatim>\<open>/g.h\<close>, which is classified already, so \<^verbatim>\<open>/g.h\<close> is not \<^verbatim>\<open>MODIFIED\<close> and \<^verbatim>\<open>/h.cpp\<close> is
  not classified at all.
\<close>

theorem cascade_counterexample:
  "changedOnDisk chainEnv (sourceFile 1 ''/f.h'' ''old'') \<and>
   (sourceFile 2 ''/g.h'' ''g'', sourceFile 1 ''/f.h'' ''old'') \<in> includesFile chainDb \<and>
   (sourceFile 3 ''/h.cpp'' ''h'', sourceFile 2 ''/g.h'' ''g'') \<in> includesFile chainDb \<and>
   classifyFiles chainEnv chainDb (queryFiles chainDb) []
     = Inr [(''/g.h'', DELETED), (''/f.h'', MODIFIED)]"
  by (simp add: chainEnv_def chainDb_def emptyDb_def sourceFile_def queryFiles_def classifyFile_def
      fileStatus_count_def fileStatus_insert_def includedBy_def loadFile_def
      changedOnDisk_def includesFile_def)

text \<open>
  C2 (the code's behaviour at the claim's scenario). \<^verbatim>\<open>/a.h\<close> is included by \<^verbatim>\<open>/b.cpp\<close> and
  \<^verbatim>\<open>/c.cpp\<close> and is gone from disk; only \<^verbatim>\<open>/b.cpp\<close> was touched. The branch for a missing
  file inserts \<^verbatim>\<open>DELETED\<close> and does not call \<^verbatim>\<open>markAsModified\<close>, so nothing cascades from
  \<^verbatim>\<open>/a.h\<close>: \<^verbatim>\<open>/b.cpp\<close> is \<^verbatim>\<open>MODIFIED\<close> by its own change and \<^verbatim>\<open>/c.cpp\<close> is not classified;
  with \<^verbatim>\<open>/b.cpp\<close> unchanged too, neither is. The claim expects both including files to be
  \<^verbatim>\<open>MODIFIED\<close>.
\<close>

theorem deleted_header_not_cascaded:
  "classifyFiles deletedHeaderEnv deletedHeaderDb (queryFiles deletedHeaderDb) []
     = Inr [(''/a.h'', DELETED), (''/b.cpp'', MODIFIED)] \<and>
   classifyFiles deletedHeaderOnlyEnv deletedHeaderDb (queryFiles deletedHeaderDb) []
     = Inr [(''/a.h'', DELETED)]"
  by (simp add: deletedHeaderEnv_def deletedHeaderOnlyEnv_def deletedHeaderDb_def emptyDb_def
      sourceFile_def queryFiles_def classifyFile_def fileStatus_count_def fileStatus_insert_def
      includedBy_def loadFile_def)

section \<open>Properties of parse\<close>

lemma bindE_Inr [simp]: "bindE (Inr x) k = k x"
  by (simp add: bindE_def)

lemma bindE_Inl [simp]: "bindE (Inl e) k = Inl e"
  by (simp add: bindE_def)

lemma parseInputs_False:
  "parseInputs tools n inputs False ps = Inr (False, ps)"
  by (induction inputs) auto

lemma parseInputs_append:
  "parseInputs tools n (xs @ ys) success ps =
     bindE (parseInputs tools n xs success ps) (\<lambda>r. parseInputs tools n ys (fst r) (snd r))"
proof (induction xs arbitrary: success ps)
  case Nil
  show ?case by simp
next
  case (Cons x xs)
  show ?case
  proof (cases "is_regular_file tools x \<and> success")
    case True
    then show ?thesis
      by (cases "parseByJson tools x n ps") (auto simp: Cons.IH)
  next
    case False
    then show ?thesis by (auto simp: Cons.IH)
  qed
qed

lemma parseByJson_load_error:
  "fst (loadFromFile tools inp) \<noteq> [] \<Longrightarrow> parseByJson tools inp n ps = Inr (False, ps)"
  by (cases "loadFromFile tools inp") (simp add: parseByJson_def)

text \<open>
  C8 (as amended). When the compilation database of an input cannot be loaded, and the
  inputs before it were processed with success, \<^verbatim>\<open>parse\<close> returns false and its state is the
  one the inputs before the failing one left (with the hash set cleared): no later input
  is loaded, and none of its commands is dispatched.
\<close>

theorem parse_stops_at_first_failed_load:
  assumes "beginParse backend env options ps = Inr ps1"
    and "input options = pre @ bad # post"
    and "parseInputs tools (jobs options) pre True (initBuildActions tools ps1) = Inr (True, ps2)"
    and "is_regular_file tools bad"
    and "fst (loadFromFile tools bad) \<noteq> []"
  shows "parse backend env tools options ps = Inr (False, ps2\<lparr>parsedCommandHashes := {}\<rparr>)"
  using assms
  by (simp add: parse_def parseInputs_append parseByJson_load_error parseInputs_False)

theorem parse_stops_at_first_failed_load_witness:
  "parse exBackend exEnv exTools \<lparr>incremental = False, input = [''bad.json'', ''good.json''], jobs = 1\<rparr>
     (freshParser emptyDb) = Inr (False, freshParser emptyDb)"
  using parse_stops_at_first_failed_load
    [of exBackend exEnv "\<lparr>incremental = False, input = [''bad.json'', ''good.json''], jobs = 1\<rparr>"
        "freshParser emptyDb" "freshParser emptyDb" "[]" "''bad.json''" "[''good.json'']" exTools
        "freshParser emptyDb"]
  by (simp add: beginParse_def initBuildActions_def freshParser_def emptyDb_def exTools_def)

text \<open>
  C8 as stated fails: with the inputs \<^verbatim>\<open>bad.json\<close>, \<^verbatim>\<open>good.json\<close> the second is a regular
  file that loads and holds a command that has not been parsed, and \<^verbatim>\<open>parse\<close> returns
  false with no job dispatched and the store as it was.
\<close>

theorem parse_failed_load_counterexample:
  "is_regular_file exTools ''good.json'' \<and>
   loadFromFile exTools ''good.json'' = ([], [exCommand]) \<and>
   fnvHash exTools (join (CommandLine exCommand) '' '') \<notin> parsedCommandHashes (freshParser emptyDb) \<and>
   parse exBackend exEnv exTools
     \<lparr>incremental = False, input = [''bad.json'', ''good.json''], jobs = 1\<rparr> (freshParser emptyDb)
   = Inr (False, \<lparr>ctx_db = emptyDb, fileStatus = [], parsedCommandHashes = {}, dispatched = []\<rparr>)"
  by (simp add: parse_def beginParse_def initBuildActions_def freshParser_def emptyDb_def exTools_def
        parseByJson_def)


lemma classifyFiles_unchanged:
  assumes "\<forall>f \<in> set fs. disk env (file_path f) \<noteq> None \<and> \<not> changedOnDisk env f"
  shows "classifyFiles env db fs st = Inr st"
  using assms
proof (induction fs)
  case Nil
  show ?case by simp
next
  case (Cons f fs)
  then have "classifyFile env db f st = Inr st"
    by (auto simp: classifyFile_def changedOnDisk_def split: option.splits)
  with Cons show ?case by simp
qed

lemma incrementalParse_unchanged:
  assumes "\<forall>f \<in> set (queryFiles db). disk env (file_path f) \<noteq> None \<and> \<not> changedOnDisk env f"
  shows "incrementalParse backend env [] db = (Inr [], db)"
  using classifyFiles_unchanged [OF assms, of db "[]"]
  by (simp add: incrementalParse_def OdbTransaction_def)

lemma fold_insert_hashes:
  "fold (\<lambda>ba hashes. insert (h (action_command ba)) hashes) bas hs
     = hs \<union> (\<lambda>ba. h (action_command ba)) ` set bas"
  by (induction bas arbitrary: hs) auto

lemma enqueueCommands_all_parsed:
  assumes "\<forall>c \<in> set commands. fnvHash tools (join (CommandLine c) '' '') \<in> hashes"
  shows "enqueueCommands tools commands index (hashes, queue) = (hashes, queue)"
  using assms by (induction commands arbitrary: index) (auto simp: Let_def)

lemma parseByJson_all_parsed:
  assumes "\<forall>c \<in> set (snd (loadFromFile tools inp)).
             fnvHash tools (join (CommandLine c) '' '') \<in> parsedCommandHashes ps"
  shows "\<exists>ok. parseByJson tools inp n ps = Inr (ok, ps)"
proof (cases "loadFromFile tools inp")
  case (Pair errorMsg commands)
  with assms have "enqueueCommands tools commands 0 (parsedCommandHashes ps, [])
      = (parsedCommandHashes ps, [])"
    by (intro enqueueCommands_all_parsed) simp
  with Pair show ?thesis by (auto simp: parseByJson_def)
qed

lemma parseInputs_all_parsed:
  assumes "\<forall>inp \<in> set inputs. \<forall>c \<in> set (snd (loadFromFile tools inp)).
             fnvHash tools (join (CommandLine c) '' '') \<in> parsedCommandHashes ps"
  shows "\<exists>ok. parseInputs tools n inputs success ps = Inr (ok, ps)"
  using assms
proof (induction inputs arbitrary: success)
  case Nil
  show ?case by simp
next
  case (Cons inp inputs)
  from Cons.prems parseByJson_all_parsed [of tools inp ps n] obtain ok where
    ok: "parseByJson tools inp n ps = Inr (ok, ps)" by auto
  from Cons.IH Cons.prems have ih: "\<exists>ok. parseInputs tools n inputs b ps = Inr (ok, ps)" for b
    by simp
  show ?case using ok ih by (auto simp: parseInputs_False)
qed

text \<open>
  C6. A run on a parser with an empty \<^verbatim>\<open>_fileStatus\<close>, with every file of the store on disk
  and unchanged, in which every command of every input has a BuildAction row with the
  same joined command line, returns, dispatches no job and leaves the store as it was
  (with or without \<^verbatim>\<open>incremental\<close>).
\<close>

theorem second_run_dispatches_nothing:
  assumes fresh: "fileStatus ps = []"
    and unchanged: "\<forall>f \<in> set (queryFiles (ctx_db ps)).
                      disk env (file_path f) \<noteq> None \<and> \<not> changedOnDisk env f"
    and recorded: "\<forall>inp \<in> set (input options). \<forall>c \<in> set (snd (loadFromFile tools inp)).
                     \<exists>ba \<in> set (BuildActions (ctx_db ps)).
                       action_command ba = join (CommandLine c) '' ''"
  shows "\<exists>ok ps'. parse backend env tools options ps = Inr (ok, ps') \<and>
           dispatched ps' = dispatched ps \<and> ctx_db ps' = ctx_db ps"
proof -
  have b: "beginParse backend env options ps = Inr ps"
    using fresh incrementalParse_unchanged [OF unchanged, of backend]
    by (simp add: beginParse_def)
  let ?ps1 = "initBuildActions tools ps"
  have h: "parsedCommandHashes ?ps1
      = parsedCommandHashes ps \<union> (\<lambda>ba. fnvHash tools (action_command ba)) ` set (BuildActions (ctx_db ps))"
    by (simp add: initBuildActions_def fold_insert_hashes)
  have "\<forall>inp \<in> set (input options). \<forall>c \<in> set (snd (loadFromFile tools inp)).
          fnvHash tools (join (CommandLine c) '' '') \<in> parsedCommandHashes ?ps1"
  proof (intro ballI)
    fix inp c
    assume "inp \<in> set (input options)" "c \<in> set (snd (loadFromFile tools inp))"
    with recorded obtain ba where "ba \<in> set (BuildActions (ctx_db ps))"
      "action_command ba = join (CommandLine c) '' ''" by blast
    then have "fnvHash tools (join (CommandLine c) '' '')
        \<in> (\<lambda>ba. fnvHash tools (action_command ba)) ` set (BuildActions (ctx_db ps))"
      by (metis imageI)
    then show "fnvHash tools (join (CommandLine c) '' '') \<in> parsedCommandHashes ?ps1"
      by (simp add: h)
  qed
  from parseInputs_all_parsed [OF this, of "jobs options" True] obtain ok where
    "parseInputs tools (jobs options) (input options) True ?ps1 = Inr (ok, ?ps1)" by blast
  with b have "parse backend env tools options ps = Inr (ok, ?ps1\<lparr>parsedCommandHashes := {}\<rparr>)"
    by (simp add: parse_def)
  then show ?thesis by (auto simp: initBuildActions_def)
qed

theorem second_run_dispatches_nothing_witness:
  "\<exists>ok ps'. parse exBackend exEnv exTools
       \<lparr>incremental = True, input = [''compile_commands.json''], jobs = 4\<rparr> (freshParser recordedDb)
       = Inr (ok, ps') \<and>
     dispatched ps' = [] \<and> ctx_db ps' = recordedDb"
  using second_run_dispatches_nothing
    [of "freshParser recordedDb" exEnv
        "\<lparr>incremental = True, input = [''compile_commands.json''], jobs = 4\<rparr>" exTools exBackend]
  by (simp add: freshParser_def recordedDb_def emptyDb_def sourceFile_def queryFiles_def exEnv_def
        changedOnDisk_def exTools_def exCommand_def)

section \<open>Properties of worker and addCompileCommand\<close>

lemma keeps_refl: "keeps X db db"
  by (simp add: keeps_def)

lemma keeps_trans: "keeps X db db1 \<Longrightarrow> keeps X db1 db2 \<Longrightarrow> keeps X db db2"
  unfolding keeps_def by (metis (no_types, lifting))

lemma fileOf_path: "fileOf db p = Some f \<Longrightarrow> file_path f = p"
  by (auto simp: fileOf_def find_Some_iff)

lemma find_append_case:
  "find P (xs @ ys) = (case find P xs of Some x \<Rightarrow> Some x | None \<Rightarrow> find P ys)"
  by (induction xs) auto

lemma getFile_keeps:
  assumes "getFile tools p db = (f, db1)"
  shows "keeps X db db1 \<and> fileOf db1 p = Some f"
proof (cases "fileOf db p")
  case (Some g)
  with assms show ?thesis by (auto simp: getFile_def keeps_refl)
next
  case None
  with assms have db1: "Files db1 = Files db @ [f]" and f: "file_path f = p"
    by (auto simp: getFile_def Let_def)
  have "fileOf db1 q = (case fileOf db q of Some g \<Rightarrow> Some g | None \<Rightarrow> if q = p then Some f else None)"
    for q
    using f by (auto simp: fileOf_def db1 find_append_case split: option.splits)
  with None show ?thesis by (auto simp: keeps_def)
qed

lemma find_map_same:
  assumes "\<And>x. P (h x) = P x"
  shows "find P (map h xs) = map_option h (find P xs)"
  using assms by (induction xs) auto

lemma updateFile_keeps:
  assumes old: "fileOf db (file_path f') = Some f"
    and "file_id f' = file_id f"
    and "file_parseStatus f = X \<longrightarrow> file_parseStatus f' = X"
    and "file_type f = BINARY_TYPE \<longrightarrow> file_type f' = BINARY_TYPE"
  shows "keeps X db (updateFile f' db) \<and> fileOf (updateFile f' db) (file_path f') = Some f'"
proof -
  let ?h = "\<lambda>g. if file_path g = file_path f' then f' else g"
  have u: "fileOf (updateFile f' db) q = map_option ?h (fileOf db q)" for q
    unfolding fileOf_def updateFile_def
    by (simp add: find_map_same [where h = ?h])
  have "\<exists>g'. fileOf (updateFile f' db) q = Some g' \<and> file_id g' = file_id g \<and>
              (file_parseStatus g = X \<longrightarrow> file_parseStatus g' = X) \<and>
              (file_type g = BINARY_TYPE \<longrightarrow> file_type g' = BINARY_TYPE)"
    if g: "fileOf db q = Some g" for q g
  proof (cases "q = file_path f'")
    case True
    with g old have "g = f" by simp
    moreover from g True have "file_path g = file_path f'" by (auto dest: fileOf_path)
    ultimately show ?thesis using assms(2-4) g by (simp add: u)
  next
    case False
    with g have "file_path g \<noteq> file_path f'" by (auto dest: fileOf_path)
    with g show ?thesis by (simp add: u)
  qed
  moreover have "fileOf (updateFile f' db) (file_path f') = Some f'"
    using old fileOf_path [OF old] by (simp add: u)
  ultimately show ?thesis unfolding keeps_def by blast
qed

lemma addSourceTarget_step:
  assumes "addSourceTarget tools ba err (src, tgt) (bs, bt, db) = (bs', bt', db')"
  shows "keeps (outcome err) db db' \<and>
     (\<exists>f. fileOf db' src = Some f \<and> file_parseStatus f = outcome err \<and>
          bs' = bs @ [\<lparr>source_file = file_id f, source_action = action_id ba\<rparr>]) \<and>
     (\<exists>f. fileOf db' tgt = Some f \<and> file_type f = BINARY_TYPE \<and>
          bt' = bt @ [\<lparr>target_file = file_id f, target_action = action_id ba\<rparr>])"
proof -
  let ?X = "outcome err"
  obtain srcFile db1 where g1: "getFile tools src db = (srcFile, db1)" by (cases "getFile tools src db")
  let ?srcFile' = "srcFile\<lparr>file_parseStatus := ?X\<rparr>"
  let ?db2 = "updateFile ?srcFile' db1"
  obtain tgtFile db3 where g2: "getFile tools tgt ?db2 = (tgtFile, db3)"
    by (cases "getFile tools tgt ?db2")
  let ?tgtFile' = "tgtFile\<lparr>file_type := BINARY_TYPE\<rparr>"
  let ?db4 = "if file_type tgtFile \<noteq> BINARY_TYPE then updateFile ?tgtFile' db3 else db3"
  from assms g1 g2 have res:
    "bs' = bs @ [\<lparr>source_file = file_id srcFile, source_action = action_id ba\<rparr>]"
    "bt' = bt @ [\<lparr>target_file = file_id tgtFile, target_action = action_id ba\<rparr>]"
    "db' = ?db4"
    by (auto simp: addSourceTarget_def Let_def outcome_def)
  from getFile_keeps [OF g1] have k1: "keeps ?X db db1" and f1: "fileOf db1 src = Some srcFile"
    by auto
  have p1: "file_path ?srcFile' = src" using f1 by (auto dest: fileOf_path)
  from updateFile_keeps [of db1 ?srcFile' srcFile ?X] f1 p1
  have k2: "keeps ?X db1 ?db2" and f2: "fileOf ?db2 src = Some ?srcFile'" by auto
  from getFile_keeps [OF g2] have k3: "keeps ?X ?db2 db3" and f3: "fileOf db3 tgt = Some tgtFile"
    by auto
  have p3: "file_path ?tgtFile' = tgt" using f3 by (auto dest: fileOf_path)
  have k4: "keeps ?X db3 ?db4" and
    f4: "\<exists>f. fileOf ?db4 tgt = Some f \<and> file_type f = BINARY_TYPE \<and> file_id f = file_id tgtFile"
  proof -
    show "keeps ?X db3 ?db4"
      using updateFile_keeps [of db3 ?tgtFile' tgtFile ?X] f3 p3 by (auto simp: keeps_refl)
    show "\<exists>f. fileOf ?db4 tgt = Some f \<and> file_type f = BINARY_TYPE \<and> file_id f = file_id tgtFile"
      using updateFile_keeps [of db3 ?tgtFile' tgtFile ?X] f3 p3 by auto
  qed
  have k24: "keeps ?X ?db2 ?db4" using k3 k4 by (rule keeps_trans)
  have k: "keeps ?X db ?db4" using k1 k2 k24 by (blast intro: keeps_trans)
  from k24 f2 obtain g where "fileOf ?db4 src = Some g" "file_id g = file_id srcFile"
    "file_parseStatus g = ?X"
    unfolding keeps_def by fastforce
  with k f4 res show ?thesis by auto
qed

lemma addSourceTarget_fold:
  assumes "fold (addSourceTarget tools ba err) pairs (bs, bt, db) = (bs', bt', db')"
  shows "keeps (outcome err) db db' \<and> set bs \<subseteq> set bs' \<and> set bt \<subseteq> set bt' \<and>
     (\<forall>(src, tgt) \<in> set pairs.
        (\<exists>f. fileOf db' src = Some f \<and> file_parseStatus f = outcome err \<and>
             \<lparr>source_file = file_id f, source_action = action_id ba\<rparr> \<in> set bs') \<and>
        (\<exists>f. fileOf db' tgt = Some f \<and> file_type f = BINARY_TYPE \<and>
             \<lparr>target_file = file_id f, target_action = action_id ba\<rparr> \<in> set bt'))"
  using assms
proof (induction pairs arbitrary: bs bt db)
  case Nil
  then show ?case by (simp add: keeps_refl)
next
  case (Cons pr pairs)
  obtain src tgt where pr: "pr = (src, tgt)" by (cases pr)
  obtain bs1 bt1 db1 where s: "addSourceTarget tools ba err (src, tgt) (bs, bt, db) = (bs1, bt1, db1)"
    by (cases "addSourceTarget tools ba err (src, tgt) (bs, bt, db)")
  from addSourceTarget_step [OF s] obtain fs ft where
    k1: "keeps (outcome err) db db1" and
    fs: "fileOf db1 src = Some fs" "file_parseStatus fs = outcome err"
        "bs1 = bs @ [\<lparr>source_file = file_id fs, source_action = action_id ba\<rparr>]" and
    ft: "fileOf db1 tgt = Some ft" "file_type ft = BINARY_TYPE"
        "bt1 = bt @ [\<lparr>target_file = file_id ft, target_action = action_id ba\<rparr>]"
    by blast
  from Cons.prems pr s have "fold (addSourceTarget tools ba err) pairs (bs1, bt1, db1) = (bs', bt', db')"
    by simp
  from Cons.IH [OF this] have
    k2: "keeps (outcome err) db1 db'" and sub: "set bs1 \<subseteq> set bs'" "set bt1 \<subseteq> set bt'" and
    rest: "\<forall>(src, tgt) \<in> set pairs.
        (\<exists>f. fileOf db' src = Some f \<and> file_parseStatus f = outcome err \<and>
             \<lparr>source_file = file_id f, source_action = action_id ba\<rparr> \<in> set bs') \<and>
        (\<exists>f. fileOf db' tgt = Some f \<and> file_type f = BINARY_TYPE \<and>
             \<lparr>target_file = file_id f, target_action = action_id ba\<rparr> \<in> set bt')"
    by auto
  from k2 fs(1,2) obtain fs' where fs': "fileOf db' src = Some fs'" "file_id fs' = file_id fs"
    "file_parseStatus fs' = outcome err"
    unfolding keeps_def by fastforce
  from k2 ft(1,2) obtain ft' where ft': "fileOf db' tgt = Some ft'" "file_id ft' = file_id ft"
    "file_type ft' = BINARY_TYPE"
    unfolding keeps_def by fastforce
  have "\<lparr>source_file = file_id fs', source_action = action_id ba\<rparr> \<in> set bs'"
    using fs(3) fs'(2) sub(1) by auto
  moreover have "\<lparr>target_file = file_id ft', target_action = action_id ba\<rparr> \<in> set bt'"
    using ft(3) ft'(2) sub(2) by auto
  moreover have "keeps (outcome err) db db'" using k1 k2 by (rule keeps_trans)
  moreover have "set bs \<subseteq> set bs'" "set bt \<subseteq> set bt'" using sub fs(3) ft(3) by auto
  ultimately show ?case using fs' ft' rest pr by auto
qed

lemma finite_sources_foldl:
  "finite (sources s) \<Longrightarrow> finite (sources (foldl (scanArg dir) s args))"
  by (induction args arbitrary: s) (auto simp: scanArg_def)

lemma finite_dom_extractInputOutputs: "finite (dom (extractInputOutputs c))"
  by (simp add: dom_extractInputOutputs scanArgs_def finite_sources_foldl scanInit_def)

lemma set_entries: "finite (dom m) \<Longrightarrow> set (entries m) = {(k, v). m k = Some v}"
  by (auto simp: entries_def)

lemma fileOf_BuildRows [simp]:
  "fileOf (db\<lparr>BuildSources := a, BuildTargets := b\<rparr>) = fileOf db"
  by (rule ext) (simp add: fileOf_def)

lemma addCompileCommand_spec:
  assumes "extractInputOutputs command src = Some tgt"
  shows
    "(\<exists>f. fileOf (addCompileCommand tools command ba err db) src = Some f \<and>
          file_parseStatus f = outcome err \<and>
          \<lparr>source_file = file_id f, source_action = action_id ba\<rparr>
            \<in> set (BuildSources (addCompileCommand tools command ba err db))) \<and>
     (\<exists>f. fileOf (addCompileCommand tools command ba err db) tgt = Some f \<and>
          file_type f = BINARY_TYPE \<and>
          \<lparr>target_file = file_id f, target_action = action_id ba\<rparr>
            \<in> set (BuildTargets (addCompileCommand tools command ba err db)))"
proof -
  let ?pairs = "entries (extractInputOutputs command)"
  obtain bs bt db' where f: "fold (addSourceTarget tools ba err) ?pairs ([], [], db) = (bs, bt, db')"
    by (cases "fold (addSourceTarget tools ba err) ?pairs ([], [], db)")
  have "(src, tgt) \<in> set ?pairs"
    using assms by (simp add: set_entries finite_dom_extractInputOutputs)
  with addSourceTarget_fold [OF f] have
    "(\<exists>f. fileOf db' src = Some f \<and> file_parseStatus f = outcome err \<and>
             \<lparr>source_file = file_id f, source_action = action_id ba\<rparr> \<in> set bs) \<and>
        (\<exists>f. fileOf db' tgt = Some f \<and> file_type f = BINARY_TYPE \<and>
             \<lparr>target_file = file_id f, target_action = action_id ba\<rparr> \<in> set bt)"
    by blast
  then show ?thesis by (auto simp: addCompileCommand_def f)
qed

lemma extractInputOutputs_exCommand:
  "extractInputOutputs exCommand = [''/d/a.cpp'' \<mapsto> ''/d/.o'']"
  by (rule ext)
     (simp add: exCommand_def extractInputOutputs_def scanArgs_def scanArg_def scanInit_def
        isSourceFile_def isNonSourceFlag_def extension_def filename_def cppExts_def
        absolute_def tolower_def objectOf_def substr0_def size_t_sub_def)

text \<open>
  C7. A job whose command line is not empty and for which the compilation database is
  created returns the result of the external parse, whatever it is, and for every entry
  \<^verbatim>\<open>src \<mapsto> tgt\<close> of \<^verbatim>\<open>extractInputOutputs\<close> the store then holds: the File of \<^verbatim>\<open>src\<close> with
  parse status PartiallyParsed when the result is not zero and FullyParsed when it is; the
  File of \<^verbatim>\<open>tgt\<close> with type Binary; a BuildSource row and a BuildTarget row that reference
  these Files and the BuildAction recorded for the command.
\<close>

theorem worker_records_outcome:
  assumes "CommandLine command = compiler # args"
    and "loadFromCommandLine tools (''--'' # args)"
    and "toolRun tools command (snd (addBuildAction command db)) = (err, db2)"
  shows "\<exists>db'. worker tools command db = Inr (err, db') \<and>
     (\<forall>src tgt. extractInputOutputs command src = Some tgt \<longrightarrow>
        (\<exists>f. fileOf db' src = Some f \<and>
             file_parseStatus f = (if err \<noteq> 0 then PSPartiallyParsed else PSFullyParsed) \<and>
             \<lparr>source_file = file_id f,
              source_action = action_id (fst (addBuildAction command db))\<rparr>
               \<in> set (BuildSources db')) \<and>
        (\<exists>f. fileOf db' tgt = Some f \<and> file_type f = BINARY_TYPE \<and>
             \<lparr>target_file = file_id f,
              target_action = action_id (fst (addBuildAction command db))\<rparr>
               \<in> set (BuildTargets db')))"
proof -
  obtain ba db1 where a: "addBuildAction command db = (ba, db1)"
    by (cases "addBuildAction command db")
  let ?db' = "addCompileCommand tools command ba (err \<noteq> 0) db2"
  have w: "worker tools command db = Inr (err, ?db')"
    using assms a by (simp add: worker_def)
  show ?thesis
    using w a addCompileCommand_spec [of command _ _ tools ba "err \<noteq> 0" db2]
    by (auto simp: outcome_def)
qed

theorem worker_records_outcome_witness:
  "\<exists>db'. worker failingTools exCommand emptyDb = Inr (1, db') \<and>
      (\<exists>f. fileOf db' ''/d/a.cpp'' = Some f \<and> file_parseStatus f = PSPartiallyParsed) \<and>
      (\<exists>f. fileOf db' ''/d/.o'' = Some f \<and> file_type f = BINARY_TYPE)"
proof -
  have io: "extractInputOutputs exCommand ''/d/a.cpp'' = Some ''/d/.o''"
    by (simp add: extractInputOutputs_exCommand)
  have c: "CommandLine exCommand = ''gcc'' # [''-c'', ''a.cpp'']"
    by (simp add: exCommand_def)
  have l: "loadFromCommandLine failingTools (''--'' # [''-c'', ''a.cpp''])"
    by (simp add: failingTools_def)
  have t: "toolRun failingTools exCommand (snd (addBuildAction exCommand emptyDb))
      = (1, snd (addBuildAction exCommand emptyDb))"
    by (simp add: failingTools_def)
  from worker_records_outcome [OF c l t] io show ?thesis by fastforce
qed

section \<open>Properties of the cleanup\<close>

lemma severed_same:
  "CppNodes db' = CppNodes db \<Longrightarrow> CppEdges db' = CppEdges db \<Longrightarrow> severed db db'"
  by (simp add: severed_def nodeIds_def)

lemma severed_refl: "severed db db"
  by (simp add: severed_same)

lemma severed_trans:
  assumes "severed db db1" and "severed db1 db2"
  shows "severed db db2"
  using assms unfolding severed_def by blast

lemma nodeIds_erase:
  "nodeIds (db\<lparr>CppNodes := filter (\<lambda>n. node_id n \<noteq> i) (CppNodes db)\<rparr>) = nodeIds db - {i}"
  "nodeIds (db\<lparr>CppNodes := filter (\<lambda>n. node_id n \<noteq> i) (CppNodes db), CppEdges := es\<rparr>)
     = nodeIds db - {i}"
  by (auto simp: nodeIds_def)

lemma eraseCppNode_severed:
  assumes "eraseCppNode onDelete i db = Inr db'"
  shows "severed db db'"
proof (cases onDelete)
  case Cascade
  with assms have
    "db' = db\<lparr>CppNodes := filter (\<lambda>n. node_id n \<noteq> i) (CppNodes db),
               CppEdges := filter (\<lambda>e. edge_from e \<noteq> i \<and> edge_to e \<noteq> i) (CppEdges db)\<rparr>"
    by (simp add: eraseCppNode_def)
  then show ?thesis
    unfolding severed_def by (auto simp: nodeIds_erase)
next
  case NoAction
  with assms have
    "db' = db\<lparr>CppNodes := filter (\<lambda>n. node_id n \<noteq> i) (CppNodes db)\<rparr>"
    "\<forall>e \<in> set (CppEdges db). edge_from e \<noteq> i \<and> edge_to e \<noteq> i"
    by (auto simp: eraseCppNode_def split: if_splits)
  then show ?thesis
    unfolding severed_def by (auto simp: nodeIds_erase)
qed

lemma bindE_Inr_iff:
  "bindE m k = Inr y \<longleftrightarrow> (\<exists>x. m = Inr x \<and> k x = Inr y)"
  by (cases m) (auto simp: bindE_def)

lemma eraseNodes_severed:
  "eraseNodes onDelete ids db = Inr db' \<Longrightarrow> severed db db'"
proof (induction ids arbitrary: db)
  case Nil
  then show ?case by (simp add: severed_refl)
next
  case (Cons i ids)
  then show ?case
    by (auto simp: bindE_Inr_iff intro: severed_trans eraseCppNode_severed)
qed

lemma eraseComponents_severed:
  "eraseComponents onDelete delNodes db = Inr db' \<Longrightarrow> severed db db'"
proof (induction delNodes arbitrary: db)
  case Nil
  then show ?case by (simp add: severed_refl)
next
  case (Cons n delNodes)
  then show ?case
    by (auto simp: bindE_Inr_iff intro: severed_trans eraseNodes_severed)
qed

lemma fold_erase_graph:
  assumes "\<And>x d. CppNodes (f x d) = CppNodes d \<and> CppEdges (f x d) = CppEdges d"
  shows "CppNodes (fold f xs db) = CppNodes db \<and> CppEdges (fold f xs db) = CppEdges db"
  using assms by (induction xs arbitrary: db) auto

lemma cleanupAstNode_severed:
  assumes "cleanupAstNode onDelete astNode db = Inr db'"
  shows "severed db db'"
proof -
  let ?h = "ast_mangledNameHash astNode"
  let ?db1 = "fold (\<lambda>entity. eraseCppEntity (entity_id entity))
                (filter (\<lambda>x. entity_mangledNameHash x = ?h) (CppEntities db)) db"
  let ?db2 = "fold (\<lambda>inheritance. eraseCppInheritance (inheritance_id inheritance))
                (filter (\<lambda>x. inheritance_derived x = ?h) (CppInheritances ?db1)) ?db1"
  let ?db3 = "fold (\<lambda>friendship. eraseCppFriendship (friendship_id friendship))
                (filter (\<lambda>x. friendship_target x = ?h) (CppFriendships ?db2)) ?db2"
  have 1: "CppNodes ?db1 = CppNodes db \<and> CppEdges ?db1 = CppEdges db"
    by (rule fold_erase_graph) (simp add: eraseCppEntity_def)
  have 2: "CppNodes ?db2 = CppNodes ?db1 \<and> CppEdges ?db2 = CppEdges ?db1"
    by (rule fold_erase_graph) (simp add: eraseCppInheritance_def)
  have 3: "CppNodes ?db3 = CppNodes ?db2 \<and> CppEdges ?db3 = CppEdges ?db2"
    by (rule fold_erase_graph) (simp add: eraseCppFriendship_def)
  have "severed db ?db3" using 1 2 3 by (intro severed_same) simp_all
  moreover from assms have "severed ?db3 db'"
    unfolding cleanupAstNode_def Let_def by (rule eraseComponents_severed)
  ultimately show ?thesis by (rule severed_trans)
qed

lemma cleanupAstNodes_severed:
  "cleanupAstNodes onDelete astNodes db = Inr db' \<Longrightarrow> severed db db'"
proof (induction astNodes arbitrary: db)
  case Nil
  then show ?case by (simp add: severed_refl)
next
  case (Cons a astNodes)
  then show ?case
    by (auto simp: bindE_Inr_iff intro: severed_trans cleanupAstNode_severed)
qed

lemma cleanupFile_severed:
  assumes rf: "keepsGraph backend" and c: "cleanupFile backend path db = Inr db'"
  shows "severed db db'"
proof -
  let ?pol = "edgeOnDelete backend"
  from c obtain found where
    "bindE (case found of
          None \<Rightarrow> Inl NullPointer
        | Some delFile \<Rightarrow>
            bindE (cleanupAstNodes ?pol
                     (filter (\<lambda>n. ast_file n = file_id delFile \<and> ast_astType n = Definition)
                        (CppAstNodes db)) db)
              (\<lambda>db1.
                 let db2 = fold (\<lambda>source. eraseBuildAction (source_action source))
                             (filter (\<lambda>s. source_file s = file_id delFile) (BuildSources db1)) db1
                 in bindE (eraseComponents ?pol
                             (filter (\<lambda>n. node_domainId n = to_string (file_id delFile) \<and>
                                          node_domain n = FILE) (CppNodes db2)) db2)
                      (removeFile backend delFile))) Inr = Inr db'"
    unfolding cleanupFile_def bindE_Inr_iff by (auto simp: bindE_def split: sum.splits)
  then obtain delFile where
    b: "bindE (cleanupAstNodes ?pol
                     (filter (\<lambda>n. ast_file n = file_id delFile \<and> ast_astType n = Definition)
                        (CppAstNodes db)) db)
              (\<lambda>db1.
                 let db2 = fold (\<lambda>source. eraseBuildAction (source_action source))
                             (filter (\<lambda>s. source_file s = file_id delFile) (BuildSources db1)) db1
                 in bindE (eraseComponents ?pol
                             (filter (\<lambda>n. node_domainId n = to_string (file_id delFile) \<and>
                                          node_domain n = FILE) (CppNodes db2)) db2)
                      (removeFile backend delFile)) = Inr db'"
    by (cases found) (simp_all add: bindE_def split: sum.splits)
  define db2of where "db2of db1 = fold (\<lambda>source. eraseBuildAction (source_action source))
        (filter (\<lambda>s. source_file s = file_id delFile) (BuildSources db1)) db1" for db1
  from b obtain db1 where
    1: "cleanupAstNodes ?pol
          (filter (\<lambda>n. ast_file n = file_id delFile \<and> ast_astType n = Definition) (CppAstNodes db)) db
        = Inr db1" and
    b2: "bindE (eraseComponents ?pol
                  (filter (\<lambda>n. node_domainId n = to_string (file_id delFile) \<and>
                              node_domain n = FILE) (CppNodes (db2of db1))) (db2of db1))
           (removeFile backend delFile) = Inr db'"
    unfolding bindE_Inr_iff [of "cleanupAstNodes _ _ _"] Let_def db2of_def by blast
  from b2 obtain db3 where
    3: "eraseComponents ?pol
          (filter (\<lambda>n. node_domainId n = to_string (file_id delFile) \<and> node_domain n = FILE)
             (CppNodes (db2of db1))) (db2of db1) = Inr db3" and
    4: "removeFile backend delFile db3 = Inr db'"
    unfolding bindE_Inr_iff by blast
  have "CppNodes (db2of db1) = CppNodes db1 \<and> CppEdges (db2of db1) = CppEdges db1"
    unfolding db2of_def by (rule fold_erase_graph) (simp add: eraseBuildAction_def)
  then have "severed db1 (db2of db1)" by (intro severed_same) simp_all
  moreover have "severed db db1" using 1 by (rule cleanupAstNodes_severed)
  moreover have "severed (db2of db1) db3" using 3 by (rule eraseComponents_severed)
  moreover have "severed db3 db'" using rf 4 by (auto simp: keepsGraph_def intro: severed_same)
  ultimately show ?thesis by (blast intro: severed_trans)
qed

lemma cleanupItems_severed:
  assumes "keepsGraph backend"
  shows "cleanupItems backend items db = Inr db' \<Longrightarrow> severed db db'"
proof (induction items arbitrary: db)
  case Nil
  then show ?case by (simp add: severed_refl)
next
  case (Cons item items)
  show ?case
  proof (cases "snd item")
    case ADDED
    with Cons show ?thesis by simp
  next
    case MODIFIED
    with Cons show ?thesis
      by (auto simp: bindE_Inr_iff intro: severed_trans cleanupFile_severed [OF assms])
  next
    case DELETED
    with Cons show ?thesis
      by (auto simp: bindE_Inr_iff intro: severed_trans cleanupFile_severed [OF assms])
  qed
qed

lemma incrementalParse_severed:
  assumes "keepsGraph backend"
  shows "severed db (snd (incrementalParse backend env st db))"
proof (cases "classifyFiles env db (queryFiles db) st")
  case (Inl e)
  then show ?thesis by (simp add: incrementalParse_def OdbTransaction_def bindE_def severed_refl)
next
  case (Inr st')
  show ?thesis
  proof (cases "cleanupItems backend st' db")
    case (Inl e)
    with Inr show ?thesis
      by (simp add: incrementalParse_def OdbTransaction_def bindE_def severed_refl)
  next
    case (Inr db')
    with \<open>classifyFiles env db (queryFiles db) st = Inr st'\<close>
      cleanupItems_severed [OF assms Inr]
    show ?thesis by (simp add: incrementalParse_def OdbTransaction_def bindE_def)
  qed
qed

lemma classify_graphDb:
  "classifyFiles goneEnv graphDb (queryFiles graphDb) [] = Inr [(''/a.h'', DELETED)]"
  by (simp add: goneEnv_def graphDb_def sourceFile_def queryFiles_def classifyFile_def
      fileStatus_count_def fileStatus_insert_def)

lemma cleanup_graphDb:
  "cleanupItems exBackend [(''/a.h'', DELETED)] graphDb = Inr graphDbAfter"
  apply (simp add: cleanupFile_def one_def)
  apply (simp add: graphDb_def sourceFile_def)
  apply (simp add: cleanupAstNode_def eraseCppEntity_def eraseCppInheritance_def eraseCppFriendship_def to_string.simps
      )
  apply (simp add: collectNodeSet_def expand_def fromTargets_def toTargets_def insert_commute)
  apply (simp add: eraseCppNode_def exBackend_def bindE_def)
  apply (simp add: eraseBuildAction_def  to_string.simps)
  apply (simp add: collectNodeSet_def expand_def fromTargets_def toTargets_def insert_commute bindE_def
     eraseCppNode_def removeFileRow_def graphDbAfter_def sourceFile_def)
  done


lemma incrementalParse_graphDb:
  "incrementalParse exBackend goneEnv [] graphDb = (Inr [(''/a.h'', DELETED)], graphDbAfter)"
  by (simp add: incrementalParse_def OdbTransaction_def classify_graphDb cleanup_graphDb
        del: cleanupItems.simps)

lemma keepsGraph_exBackend: "keepsGraph exBackend"
  by (auto simp: keepsGraph_def exBackend_def removeFileRow_def)

text \<open>
  What erasing one component does when the foreign keys cascade. The set collected is
  closed under the edges of the store, so the edges that go with the erased nodes are
  exactly the edges inside the component: no edge between two nodes that stay is lost.
\<close>

lemma component_closed:
  assumes "e \<in> set (CppEdges db)"
  shows "edge_from e \<in> collectNodeSet db n \<longleftrightarrow> edge_to e \<in> collectNodeSet db n"
proof -
  have 1: "(edge_from e, edge_to e) \<in> undirected db" "(edge_to e, edge_from e) \<in> undirected db"
    using assms by (auto simp: undirected_def)
  show ?thesis
    unfolding collectNodeSet_component component_def
    using 1 by (auto intro: rtrancl_into_rtrancl)
qed

lemma finite_collectNodeSet: "finite (collectNodeSet db n)"
proof -
  have "m \<in> insert n (endpoints (CppEdges db))" if "(n, m) \<in> (undirected db)\<^sup>*" for m
    using that
    by (induction rule: rtrancl_induct) (auto simp: undirected_def endpoints_def)
  then have "collectNodeSet db n \<subseteq> insert n (endpoints (CppEdges db))"
    by (auto simp: collectNodeSet_component component_def)
  moreover have "finite (insert n (endpoints (CppEdges db)))"
    by (simp add: endpoints_def)
  ultimately show ?thesis by (rule finite_subset)
qed

lemma eraseNodes_Cascade:
  "eraseNodes Cascade ids db =
     Inr (db\<lparr>CppNodes := filter (\<lambda>n. node_id n \<notin> set ids) (CppNodes db),
             CppEdges := filter (\<lambda>e. edge_from e \<notin> set ids \<and> edge_to e \<notin> set ids)
                           (CppEdges db)\<rparr>)"
proof (induction ids arbitrary: db)
  case Nil
  show ?case by simp
next
  case (Cons i ids)
  show ?case
    by (simp add: eraseCppNode_def Cons.IH conj_commute conj_left_commute cong: conj_cong)
qed

lemma eraseComponent_Cascade:
  assumes "eraseNodes Cascade (sorted_list_of_set (collectNodeSet db n)) db = Inr db'"
  shows "set (CppNodes db') = {x \<in> set (CppNodes db). node_id x \<notin> collectNodeSet db n} \<and>
         set (CppEdges db') =
           {e \<in> set (CppEdges db). edge_from e \<notin> collectNodeSet db n \<and>
                                     edge_to e \<notin> collectNodeSet db n} \<and>
         (\<forall>e \<in> set (CppEdges db) - set (CppEdges db').
            edge_from e \<in> collectNodeSet db n \<and> edge_to e \<in> collectNodeSet db n)"
proof -
  have s: "set (sorted_list_of_set (collectNodeSet db n)) = collectNodeSet db n"
    by (simp add: finite_collectNodeSet)
  from assms have db': "db' = db\<lparr>CppNodes := filter (\<lambda>x. node_id x \<notin> collectNodeSet db n) (CppNodes db),
             CppEdges := filter (\<lambda>e. edge_from e \<notin> collectNodeSet db n \<and>
                                      edge_to e \<notin> collectNodeSet db n) (CppEdges db)\<rparr>"
    by (simp add: eraseNodes_Cascade s)
  show ?thesis
    unfolding db' using component_closed [of _ db n] by auto
qed

text \<open>
  C3. Whatever the invalidation pass does (also when it fails and is rolled back), with
  either action of the foreign keys of CppEdge and a \<^verbatim>\<open>removeFile\<close> that leaves the graph
  tables alone: no CppEdge of the store after the pass has as its \<^verbatim>\<open>from\<close> or \<^verbatim>\<open>to\<close> a
  CppNode that was in the store before the pass and is not in it after.
\<close>

theorem cleanup_leaves_no_edge_to_deleted_node:
  assumes "keepsGraph backend"
    and "e \<in> set (CppEdges (snd (incrementalParse backend env st db)))"
    and "n \<in> set (CppNodes db)"
    and "node_id n \<notin> node_id ` set (CppNodes (snd (incrementalParse backend env st db)))"
  shows "edge_from e \<noteq> node_id n \<and> edge_to e \<noteq> node_id n"
proof -
  define db' where "db' = snd (incrementalParse backend env st db)"
  have s: "severed db db'"
    unfolding db'_def using assms(1) by (rule incrementalParse_severed)
  have "node_id n \<in> nodeIds db - nodeIds db'"
    using assms(3,4) by (simp add: nodeIds_def db'_def)
  moreover have "edge_from e \<notin> nodeIds db - nodeIds db'" "edge_to e \<notin> nodeIds db - nodeIds db'"
    using s assms(2) by (simp_all add: severed_def db'_def)
  ultimately show ?thesis by metis
qed

theorem cleanup_leaves_no_edge_to_deleted_node_witness:
  "\<lparr>edge_id = 3, edge_from = 13, edge_to = 14\<rparr>
     \<in> set (CppEdges (snd (incrementalParse exBackend goneEnv [] graphDb))) \<and>
   \<lparr>node_id = 10, node_domain = FILE, node_domainId = ''1''\<rparr> \<in> set (CppNodes graphDb) \<and>
   10 \<notin> node_id ` set (CppNodes (snd (incrementalParse exBackend goneEnv [] graphDb))) \<and>
   edge_from \<lparr>edge_id = 3, edge_from = 13, edge_to = 14\<rparr>
     \<noteq> node_id \<lparr>node_id = 10, node_domain = FILE, node_domainId = ''1''\<rparr> \<and>
   edge_to \<lparr>edge_id = 3, edge_from = 13, edge_to = 14\<rparr>
     \<noteq> node_id \<lparr>node_id = 10, node_domain = FILE, node_domainId = ''1''\<rparr>"
proof -
  have e: "\<lparr>edge_id = 3, edge_from = 13, edge_to = 14\<rparr>
     \<in> set (CppEdges (snd (incrementalParse exBackend goneEnv [] graphDb)))"
    by (simp add: incrementalParse_graphDb graphDbAfter_def)
  have n: "\<lparr>node_id = 10, node_domain = FILE, node_domainId = ''1''\<rparr> \<in> set (CppNodes graphDb)"
    by (simp add: graphDb_def)
  have d: "node_id \<lparr>node_id = 10, node_domain = FILE, node_domainId = ''1''\<rparr>
     \<notin> node_id ` set (CppNodes (snd (incrementalParse exBackend goneEnv [] graphDb)))"
    by (simp add: incrementalParse_graphDb graphDbAfter_def)
  from cleanup_leaves_no_edge_to_deleted_node [OF keepsGraph_exBackend e n d] e n d
  show ?thesis by simp
qed

text \<open>
  The whole pass is one transaction: when it throws, the store is the one before the pass;
  when it returns, the files were classified and every classified file was cleaned up, one
  after the other, from the store before the pass.
\<close>

lemma incrementalParse_commit_or_rollback:
  assumes "incrementalParse backend env st db = (r, db')"
  shows "case r of
           Inl e \<Rightarrow> db' = db
         | Inr st' \<Rightarrow> classifyFiles env db (queryFiles db) st = Inr st' \<and>
                       cleanupItems backend st' db = Inr db'"
  using assms
  by (auto simp: incrementalParse_def OdbTransaction_def bindE_def split: sum.splits)

lemma cleanupItems_append:
  "cleanupItems backend (xs @ ys) db = bindE (cleanupItems backend xs db) (cleanupItems backend ys)"
proof (induction xs arbitrary: db)
  case Nil
  show ?case by simp
next
  case (Cons x xs)
  show ?case
  proof (cases "snd x")
    case ADDED
    then show ?thesis by (simp add: Cons.IH)
  next
    case MODIFIED
    then show ?thesis
      by (cases "cleanupFile backend (fst x) db") (simp_all add: Cons.IH)
  next
    case DELETED
    then show ?thesis
      by (cases "cleanupFile backend (fst x) db") (simp_all add: Cons.IH)
  qed
qed

lemma classify_twoGoneDb:
  "classifyFiles emptyDisk twoGoneDb (queryFiles twoGoneDb) []
     = Inr ([(''/a.h'', DELETED)] @ (''/b.h'', DELETED) # [])"
  by (simp add: twoGoneDb_def emptyDb_def sourceFile_def emptyDisk_def queryFiles_def
        classifyFile_def fileStatus_insert_def)

lemma cleanup_twoGoneDb_first:
  "cleanupItems flakyBackend [(''/a.h'', DELETED)] twoGoneDb
     = Inr (twoGoneDb\<lparr>Files := [sourceFile 2 ''/b.h'' ''b'']\<rparr>)"
  by (simp add: cleanupFile_def one_def twoGoneDb_def emptyDb_def sourceFile_def
        flakyBackend_def removeFileRow_def)

lemma cleanup_twoGoneDb_second:
  "cleanupFile flakyBackend ''/b.h'' (twoGoneDb\<lparr>Files := [sourceFile 2 ''/b.h'' ''b'']\<rparr>)
     = Inl StoreError"
  by (simp add: cleanupFile_def one_def twoGoneDb_def emptyDb_def sourceFile_def
        flakyBackend_def removeFileRow_def)

text \<open>
  C9 (as amended). The invalidation pass is one transaction for all files. When the
  cleanup of one classified file fails in the store, after the cleanups of the files
  processed before it have succeeded, \<^verbatim>\<open>incrementalParse\<close> throws and the store is the one
  before the pass: nothing of the pass is kept, the earlier cleanups included.
\<close>

theorem failed_cleanup_aborts_whole_pass:
  assumes "classifyFiles env db (queryFiles db) st = Inr (processed @ (path, status) # rest)"
    and "status \<noteq> ADDED"
    and "cleanupItems backend processed db = Inr db1"
    and "cleanupFile backend path db1 = Inl e"
  shows "incrementalParse backend env st db = (Inl e, db)"
proof -
  have "cleanupItems backend ((path, status) # rest) db1 = Inl e"
    using assms(2,4) by (cases status) simp_all
  then have "cleanupItems backend (processed @ (path, status) # rest) db = Inl e"
    using assms(3) by (simp add: cleanupItems_append)
  then show ?thesis
    using assms(1) by (simp add: incrementalParse_def OdbTransaction_def)
qed

theorem failed_cleanup_aborts_whole_pass_witness:
  "incrementalParse flakyBackend emptyDisk [] twoGoneDb = (Inl StoreError, twoGoneDb)"
  using failed_cleanup_aborts_whole_pass
    [OF classify_twoGoneDb _ cleanup_twoGoneDb_first cleanup_twoGoneDb_second]
  by simp

text \<open>
  C9 as stated fails. With \<^verbatim>\<open>/a.h\<close> and \<^verbatim>\<open>/b.h\<close> both gone from disk, the cleanup of \<^verbatim>\<open>/a.h\<close>
  succeeds and removes its File row, the cleanup of \<^verbatim>\<open>/b.h\<close> then fails in the store, and
  the store after the pass still holds the File row of \<^verbatim>\<open>/a.h\<close>: the cleanup of the file
  processed before the failure is not kept.
\<close>

theorem cleanup_transaction_counterexample:
  "cleanupFile flakyBackend ''/a.h'' twoGoneDb
     = Inr (twoGoneDb\<lparr>Files := [sourceFile 2 ''/b.h'' ''b'']\<rparr>) \<and>
   cleanupFile flakyBackend ''/b.h'' (twoGoneDb\<lparr>Files := [sourceFile 2 ''/b.h'' ''b'']\<rparr>)
     = Inl StoreError \<and>
   incrementalParse flakyBackend emptyDisk [] twoGoneDb = (Inl StoreError, twoGoneDb)"
  by (simp add: incrementalParse_def OdbTransaction_def cleanupFile_def one_def twoGoneDb_def
        emptyDb_def sourceFile_def emptyDisk_def flakyBackend_def removeFileRow_def bindE_def
        queryFiles_def classifyFile_def fileStatus_insert_def)

end
